theory Spec2Isabelle
  imports Complex_Main "HOL-Library.Signed_Division"
begin

section \<open>Jacobi iterative solver (jacobi.dp.cpp)\<close>

text \<open>
  Values of type \<open>float\<close> and \<open>double\<close> are modelled by \<^typ>\<open>real\<close>: the arithmetic of
  the kernels is exact in this section, so rounding, NaN and infinities are outside
  the model. Device memory is a store from addresses to values; a pointer is the address
  of its first element and \<open>p[i]\<close> is the cell at \<open>p + i\<close>. Cells of \<open>float\<close> and cells
  of \<open>double\<close> live in two separate stores.

  A work-group runs in phases separated by \<open>item_ct1.barrier()\<close>. Inside one phase the
  work-items are run one after the other, in the order of their local ids; the work-groups
  of one launch are run one after the other, in the order of their group ids.

  \<open>N_ROWS\<close> is defined in \<open>jacobi.h\<close>; it is the parameter \<open>n\<close> of every definition below.
\<close>

subsection \<open>Device memory\<close>

type_synonym cells = "nat \<Rightarrow> real"

record device_memory =
  fmem :: cells
  dmem :: cells

definition ROWS_PER_CTA :: nat where
  "ROWS_PER_CTA = 8"

text \<open>The kernels are compiled with \<open>[[intel::reqd_sub_group_size(32)]]\<close>.\<close>

definition sub_group_size :: nat where
  "sub_group_size = 32"

subsection \<open>Loops of the kernels\<close>

text \<open>
  \<open>for (int i = start; i < n; i += step) body\<close>. The step is the local range (or the
  global range) of the launch. With a step of zero the source would not terminate; the
  model stops.
\<close>

function stride_loop :: "nat \<Rightarrow> nat \<Rightarrow> nat \<Rightarrow> (nat \<Rightarrow> 's \<Rightarrow> 's) \<Rightarrow> 's \<Rightarrow> 's" where
  "stride_loop i n step body s =
     (if i < n \<and> 0 < step then stride_loop (i + step) n step body (body i s) else s)"
  by pat_completeness auto
termination
  by (relation "measure (\<lambda>(i, n, step, body, s). n - i)") auto

declare stride_loop.simps [simp del]

text \<open>
  \<open>for (int i = k + group * ROWS_PER_CTA; (k < ROWS_PER_CTA) && (i < N_ROWS);
        k += ROWS_PER_CTA, i += ROWS_PER_CTA) body\<close>
\<close>

function owned_row_loop :: "nat \<Rightarrow> nat \<Rightarrow> nat \<Rightarrow> (nat \<Rightarrow> 's \<Rightarrow> 's) \<Rightarrow> 's \<Rightarrow> 's" where
  "owned_row_loop n k i body s =
     (if k < ROWS_PER_CTA \<and> i < n
      then owned_row_loop n (k + ROWS_PER_CTA) (i + ROWS_PER_CTA) body (body i s)
      else s)"
  by pat_completeness auto
termination
  by (relation "measure (\<lambda>(n, k, i, body, s). ROWS_PER_CTA - k)")
     (auto simp: ROWS_PER_CTA_def)

declare owned_row_loop.simps [simp del]

subsection \<open>Sub-group shuffles\<close>

text \<open>
  The values that the lanes of one sub-group hold for a variable are a list, indexed by
  the lane id. \<open>sycl::shift_group_left(g, v, delta)\<close> gives lane \<open>l\<close> the value of lane
  \<open>l + delta\<close>. Where \<open>l + delta\<close> is not a lane of the sub-group the lane keeps its own
  value, as \<open>__shfl_down_sync\<close> of the original CUDA source does.
\<close>

definition shift_group_left :: "real list \<Rightarrow> nat \<Rightarrow> nat \<Rightarrow> real" where
  "shift_group_left vs delta lane =
     (if lane + delta < length vs then vs ! (lane + delta) else vs ! lane)"

text \<open>
  \<open>dpct::shift_sub_group_left(g, v, delta, logical_sub_group_size)\<close>: a lane whose
  source is at or beyond the end of its logical sub-group keeps its own value.
\<close>

definition shift_sub_group_left :: "real list \<Rightarrow> nat \<Rightarrow> nat \<Rightarrow> nat \<Rightarrow> real" where
  "shift_sub_group_left vs delta logical_sub_group_size lane =
     (let end_index = (lane div logical_sub_group_size + 1) * logical_sub_group_size;
          result = shift_group_left vs delta lane
      in if lane + delta \<ge> end_index then vs ! lane else result)"

text \<open>
  \<open>for (int offset = size / 2; offset > 0; offset /= 2)
       v += sycl::shift_group_left(sub_group, v, offset);\<close>
  run by all lanes of the sub-group together.
\<close>

function sub_group_reduce :: "nat \<Rightarrow> real list \<Rightarrow> real list" where
  "sub_group_reduce offset vs =
     (if 0 < offset
      then sub_group_reduce (offset div 2)
             (map (\<lambda>lane. vs ! lane + shift_group_left vs offset lane) [0..<length vs])
      else vs)"
  by pat_completeness auto
termination
  by (relation "measure (\<lambda>(offset, vs). offset)") auto

declare sub_group_reduce.simps [simp del]

text \<open>
  \<open>for (int offset = tile8.size() / 2; offset > 0; offset /= 2)
       temp_sum += dpct::shift_sub_group_left(sub_group, temp_sum, offset, 8);\<close>
\<close>

function tile_reduce :: "nat \<Rightarrow> nat \<Rightarrow> real list \<Rightarrow> real list" where
  "tile_reduce tile offset vs =
     (if 0 < offset
      then tile_reduce tile (offset div 2)
             (map (\<lambda>lane. vs ! lane + shift_sub_group_left vs offset tile lane)
                [0..<length vs])
      else vs)"
  by pat_completeness auto
termination
  by (relation "measure (\<lambda>(tile, offset, vs). offset)") auto

declare tile_reduce.simps [simp del]

text \<open>
  The per-work-item values of a work-group, cut into its sub-groups: sub-group \<open>w\<close> holds
  the work-items \<open>32 w, \<dots>, 32 w + 31\<close>.
\<close>

definition sub_groups :: "real list \<Rightarrow> real list list" where
  "sub_groups vs =
     map (\<lambda>w. take sub_group_size (drop (sub_group_size * w) vs))
       [0..<(length vs + (sub_group_size - 1)) div sub_group_size]"

subsection \<open>The kernel \<open>JacobiMethod\<close>\<close>

text \<open>Lines 66-69, work-item \<open>t\<close>: stage the iterate into \<open>x_shared\<close>.\<close>

definition load_x_shared :: "nat \<Rightarrow> nat \<Rightarrow> cells \<Rightarrow> nat \<Rightarrow> nat \<Rightarrow> cells \<Rightarrow> cells" where
  "load_x_shared n bdim dm x t x_shared =
     stride_loop t n bdim (\<lambda>i xs. xs(i := dm (x + i))) x_shared"

text \<open>Lines 71-78, work-item \<open>t\<close> of group \<open>g\<close>: stage the right-hand side.\<close>

definition load_b_shared :: "nat \<Rightarrow> cells \<Rightarrow> nat \<Rightarrow> nat \<Rightarrow> nat \<Rightarrow> cells \<Rightarrow> cells" where
  "load_b_shared n dm b g t b_shared =
     (if t < ROWS_PER_CTA
      then owned_row_loop n t (t + g * ROWS_PER_CTA)
             (\<lambda>i bs. bs(i mod (ROWS_PER_CTA + 1) := dm (b + i))) b_shared
      else b_shared)"

text \<open>Lines 91-95, work-item \<open>t\<close>: its share of the dot product of row \<open>i\<close>.\<close>

definition rowThreadSum :: "nat \<Rightarrow> nat \<Rightarrow> cells \<Rightarrow> nat \<Rightarrow> cells \<Rightarrow> nat \<Rightarrow> nat \<Rightarrow> real" where
  "rowThreadSum n bdim fm A x_shared i t =
     stride_loop t n bdim (\<lambda>j s. s + fm (A + (i * n + j)) * x_shared j) 0"

text \<open>
  Lines 91-106 for one row \<open>i\<close>: every work-item sums its share, every sub-group reduces,
  and lane 0 of every sub-group adds the negated sum to the slot of the row.
\<close>

definition row_step :: "nat \<Rightarrow> nat \<Rightarrow> cells \<Rightarrow> nat \<Rightarrow> cells \<Rightarrow> nat \<Rightarrow> cells \<Rightarrow> cells" where
  "row_step n bdim fm A x_shared i b_shared =
     (let partial = map (rowThreadSum n bdim fm A x_shared i) [0..<bdim];
          reduced = map (\<lambda>vs. sub_group_reduce (length vs div 2) vs) (sub_groups partial)
      in fold (\<lambda>vs bs. bs(i mod (ROWS_PER_CTA + 1) :=
                          bs (i mod (ROWS_PER_CTA + 1)) + - (vs ! 0)))
           reduced b_shared)"

text \<open>
  Lines 89-107:
  \<open>for (int k = 0, i = group * ROWS_PER_CTA; (k < ROWS_PER_CTA) && (i < N_ROWS); k++, i++)\<close>
\<close>

function rows_loop ::
  "nat \<Rightarrow> nat \<Rightarrow> cells \<Rightarrow> nat \<Rightarrow> cells \<Rightarrow> nat \<Rightarrow> nat \<Rightarrow> cells \<Rightarrow> cells" where
  "rows_loop n bdim fm A x_shared k i b_shared =
     (if k < ROWS_PER_CTA \<and> i < n
      then rows_loop n bdim fm A x_shared (k + 1) (i + 1)
             (row_step n bdim fm A x_shared i b_shared)
      else b_shared)"
  by pat_completeness auto
termination
  by (relation "measure (\<lambda>(n, bdim, fm, A, x_shared, k, i, b_shared). ROWS_PER_CTA - k)")
     auto

declare rows_loop.simps [simp del]

text \<open>
  Lines 127-139, work-item \<open>t < ROWS_PER_CTA\<close> of group \<open>g\<close>: the update of its row. The
  state is the store of doubles and the \<open>temp_sum\<close> of every work-item that has run.
\<close>

definition update_row ::
  "nat \<Rightarrow> cells \<Rightarrow> nat \<Rightarrow> nat \<Rightarrow> cells \<Rightarrow> cells \<Rightarrow> nat \<Rightarrow> cells \<times> real \<Rightarrow> cells \<times> real" where
  "update_row n fm A x_new x_shared b_shared i st =
     (let dx = b_shared (i mod (ROWS_PER_CTA + 1));
          dx = dx / fm (A + (i * n + i))
      in ((fst st)(x_new + i := x_shared i + dx), snd st + \<bar>dx\<bar>))"

definition update_thread ::
  "nat \<Rightarrow> cells \<Rightarrow> nat \<Rightarrow> nat \<Rightarrow> cells \<Rightarrow> cells \<Rightarrow> nat \<Rightarrow> nat \<Rightarrow>
   cells \<times> real list \<Rightarrow> cells \<times> real list" where
  "update_thread n fm A x_new x_shared b_shared g t st =
     (if t < ROWS_PER_CTA
      then (let r = owned_row_loop n t (t + g * ROWS_PER_CTA)
                      (update_row n fm A x_new x_shared b_shared) (fst st, 0)
            in (fst r, snd st @ [snd r]))
      else st)"

text \<open>
  One work-group \<open>g\<close> of \<open>bdim\<close> work-items running the kernel. \<open>x_shared\<close> and \<open>b_shared\<close>
  are the local arrays passed to the kernel, with the contents they have on entry.
\<close>

definition JacobiMethod ::
  "nat \<Rightarrow> nat \<Rightarrow> nat \<Rightarrow> real \<Rightarrow> nat \<Rightarrow> nat \<Rightarrow> nat \<Rightarrow> nat \<Rightarrow> nat \<Rightarrow> cells \<Rightarrow> cells \<Rightarrow>
   device_memory \<Rightarrow> device_memory" where
  "JacobiMethod n A b conv_threshold x x_new sum_ptr bdim g x_shared b_shared h =
     (let x_shared = fold (load_x_shared n bdim (dmem h) x) [0..<bdim] x_shared;
          b_shared = fold (load_b_shared n (dmem h) b g) [0..<bdim] b_shared;
          b_shared = rows_loop n bdim (fmem h) A x_shared 0 (g * ROWS_PER_CTA) b_shared;
          st = fold (update_thread n (fmem h) A x_new x_shared b_shared g) [0..<bdim]
                 (dmem h, []);
          temp_sum = tile_reduce ROWS_PER_CTA (ROWS_PER_CTA div 2) (snd st);
          dm = fst st
      in h\<lparr>dmem := dm(sum_ptr := dm sum_ptr + temp_sum ! 0)\<rparr>)"

text \<open>
  \<open>cgh.parallel_for(sycl::nd_range<3>(nblocks * nthreads, nthreads), \<dots>)\<close>: the local
  accessors are fresh for every work-group; their initial contents are taken to be zero.
\<close>

definition launch_JacobiMethod ::
  "nat \<Rightarrow> nat \<Rightarrow> nat \<Rightarrow> real \<Rightarrow> nat \<Rightarrow> nat \<Rightarrow> nat \<Rightarrow> nat \<Rightarrow> nat \<Rightarrow>
   device_memory \<Rightarrow> device_memory" where
  "launch_JacobiMethod n A b conv_threshold x x_new sum_ptr nblocks nthreads h =
     fold (\<lambda>g. JacobiMethod n A b conv_threshold x x_new sum_ptr nthreads g (\<lambda>_. 0) (\<lambda>_. 0))
       [0..<nblocks] h"

subsection \<open>The kernel \<open>finalError\<close>\<close>

text \<open>Lines 165-174, work-item \<open>t\<close> of group \<open>g\<close>.\<close>

definition thread_error :: "nat \<Rightarrow> cells \<Rightarrow> nat \<Rightarrow> nat \<Rightarrow> nat \<Rightarrow> nat \<Rightarrow> nat \<Rightarrow> real" where
  "thread_error n dm x bdim ngroups g t =
     (let globalThreadId = g * bdim + t
      in stride_loop globalThreadId n (bdim * ngroups)
           (\<lambda>i s. (let d = dm (x + i) - 1 in s + \<bar>d\<bar>)) 0)"

definition finalError ::
  "nat \<Rightarrow> nat \<Rightarrow> nat \<Rightarrow> nat \<Rightarrow> nat \<Rightarrow> nat \<Rightarrow> cells \<Rightarrow> device_memory \<Rightarrow> device_memory" where
  "finalError n x g_sum bdim ngroups g warpSum h =
     (let partial = map (thread_error n (dmem h) x bdim ngroups g) [0..<bdim];
          reduced = map (\<lambda>vs. sub_group_reduce (length vs div 2) vs) (sub_groups partial);
          warpSum = fold (\<lambda>w ws. ws((sub_group_size * w) div sub_group_size :=
                                     reduced ! w ! 0))
                      [0..<length reduced] warpSum;
          blockSum = map (\<lambda>t. if t < bdim div sub_group_size then warpSum t else 0)
                       [0..<bdim];
          first = sub_group_reduce (length (take 32 blockSum) div 2) (take 32 blockSum)
      in h\<lparr>dmem := (dmem h)(g_sum := dmem h g_sum + first ! 0)\<rparr>)"

definition launch_finalError ::
  "nat \<Rightarrow> nat \<Rightarrow> nat \<Rightarrow> nat \<Rightarrow> nat \<Rightarrow> device_memory \<Rightarrow> device_memory" where
  "launch_finalError n x g_sum nblocks nthreads h =
     fold (\<lambda>g. finalError n x g_sum nthreads nblocks g (\<lambda>_. 0)) [0..<nblocks] h"

subsection \<open>The reference driver \<open>JacobiMethodGpu\<close>\<close>

text \<open>
  What a driver leaves behind: the device memory, the value it returns, the loop counter
  \<open>k\<close> at the exit of the loop, and the two numbers it prints when it converged
  (\<open>GPU iterations\<close> and \<open>GPU error\<close>).
\<close>

record jacobi_result =
  final_memory :: device_memory
  returned :: real
  k_exit :: nat
  printed :: "(nat \<times> real) option"

definition memset0 :: "nat \<Rightarrow> device_memory \<Rightarrow> device_memory" where
  "memset0 p h = h\<lparr>dmem := (dmem h)(p := 0)\<rparr>"

text \<open>Lines 673-746: one pass of the loop body up to the read-back of \<open>d_sum\<close>.\<close>

definition jacobi_pass ::
  "nat \<Rightarrow> nat \<Rightarrow> nat \<Rightarrow> real \<Rightarrow> nat \<Rightarrow> nat \<Rightarrow> nat \<Rightarrow> nat \<Rightarrow> device_memory \<Rightarrow> device_memory" where
  "jacobi_pass n A b conv_threshold x x_new d_sum k h =
     (let h = memset0 d_sum h
      in if even k
         then launch_JacobiMethod n A b conv_threshold x x_new d_sum
                (n div ROWS_PER_CTA + 2) 256 h
         else launch_JacobiMethod n A b conv_threshold x_new x d_sum
                (n div ROWS_PER_CTA + 2) 256 h)"

text \<open>Lines 758-813: the final-error launch of the converging pass \<open>k\<close>.\<close>

definition final_error_pass ::
  "nat \<Rightarrow> nat \<Rightarrow> nat \<Rightarrow> nat \<Rightarrow> nat \<Rightarrow> device_memory \<Rightarrow> device_memory" where
  "final_error_pass n x x_new d_sum k h =
     (let h = memset0 d_sum h
      in if even k
         then launch_finalError n x_new d_sum (n div 256 + 1) 256 h
         else launch_finalError n x d_sum (n div 256 + 1) 256 h)"

function JacobiMethodGpu_loop ::
  "nat \<Rightarrow> nat \<Rightarrow> nat \<Rightarrow> real \<Rightarrow> int \<Rightarrow> nat \<Rightarrow> nat \<Rightarrow> nat \<Rightarrow> nat \<Rightarrow> device_memory \<Rightarrow> real \<Rightarrow>
   jacobi_result" where
  "JacobiMethodGpu_loop n A b conv_threshold max_iter x x_new d_sum k h host_sum =
     (if int k < max_iter
      then (let h = jacobi_pass n A b conv_threshold x x_new d_sum k h;
                host_sum = dmem h d_sum
            in if host_sum \<le> conv_threshold
               then (let h = final_error_pass n x x_new d_sum k h;
                         host_sum = dmem h d_sum
                     in \<lparr>final_memory = h, returned = host_sum, k_exit = k,
                         printed = Some (k + 1, host_sum)\<rparr>)
               else JacobiMethodGpu_loop n A b conv_threshold max_iter x x_new d_sum
                      (k + 1) h host_sum)
      else \<lparr>final_memory = h, returned = host_sum, k_exit = k, printed = None\<rparr>)"
  by pat_completeness auto
termination
  by (relation "measure (\<lambda>(n, A, b, conv_threshold, max_iter, x, x_new, d_sum, k, h, s).
                  nat (max_iter - int k))") auto

declare JacobiMethodGpu_loop.simps [simp del]

text \<open>
  \<open>d_sum\<close> is the address that \<open>sycl::malloc_device<double>(1, \<dots>)\<close> returns. The host
  variable \<open>sum\<close> starts at \<open>0.0\<close>.
\<close>

definition JacobiMethodGpu ::
  "nat \<Rightarrow> nat \<Rightarrow> nat \<Rightarrow> real \<Rightarrow> int \<Rightarrow> nat \<Rightarrow> nat \<Rightarrow> nat \<Rightarrow> device_memory \<Rightarrow> jacobi_result" where
  "JacobiMethodGpu n A b conv_threshold max_iter x x_new d_sum h =
     JacobiMethodGpu_loop n A b conv_threshold max_iter x x_new d_sum 0 h 0"

subsection \<open>The graph drivers\<close>

text \<open>
  The two other drivers go through the CUDA graph interface, which the migration tool left
  as it was. Its model here: a graph is the list of its nodes in the order they were
  added, each node depending on the one before it (as \<open>nodeDependencies\<close> and the captured
  stream both order them); a node handle is the position of the node; an executable graph
  is a copy of the graph; launching it runs the nodes in order. The host variable \<open>sum\<close>,
  the target of the memcpy node, is carried beside the device memory.
\<close>

record kernel_node_params =
  gridDim :: nat
  blockDim :: nat
  arg_A :: nat
  arg_b :: nat
  arg_conv_threshold :: real
  arg_x :: nat
  arg_x_new :: nat
  arg_sum :: nat

datatype graph_node =
  MemsetNode nat
| KernelNode kernel_node_params
| MemcpyNode nat

fun exec_node :: "nat \<Rightarrow> graph_node \<Rightarrow> device_memory \<times> real \<Rightarrow> device_memory \<times> real" where
  "exec_node n (MemsetNode dst) (h, host_sum) = (memset0 dst h, host_sum)"
| "exec_node n (KernelNode p) (h, host_sum) =
     (launch_JacobiMethod n (arg_A p) (arg_b p) (arg_conv_threshold p) (arg_x p) (arg_x_new p)
        (arg_sum p) (gridDim p) (blockDim p) h, host_sum)"
| "exec_node n (MemcpyNode src) (h, host_sum) = (h, dmem h src)"

definition cudaGraphLaunch ::
  "nat \<Rightarrow> graph_node list \<Rightarrow> device_memory \<times> real \<Rightarrow> device_memory \<times> real" where
  "cudaGraphLaunch n graphExec st = fold (exec_node n) graphExec st"

definition cudaGraphExecKernelNodeSetParams ::
  "graph_node list \<Rightarrow> nat \<Rightarrow> kernel_node_params \<Rightarrow> graph_node list" where
  "cudaGraphExecKernelNodeSetParams graphExec node p = graphExec[node := KernelNode p]"

text \<open>
  \<open>cudaGraphExecUpdate\<close> succeeds when the new graph has the topology of the executable
  one, which then takes the parameters of the new graph; otherwise it reports failure.
\<close>

fun node_kind :: "graph_node \<Rightarrow> nat" where
  "node_kind (MemsetNode _) = 0"
| "node_kind (KernelNode _) = 1"
| "node_kind (MemcpyNode _) = 2"

definition cudaGraphExecUpdate ::
  "graph_node list \<Rightarrow> graph_node list \<Rightarrow> graph_node list \<times> bool" where
  "cudaGraphExecUpdate graphExec graph =
     (if map node_kind graphExec = map node_kind graph then (graph, True)
      else (graphExec, False))"

text \<open>Lines 325-410.\<close>

function SetParams_loop ::
  "nat \<Rightarrow> real \<Rightarrow> int \<Rightarrow> nat \<Rightarrow> nat \<Rightarrow> nat \<Rightarrow> nat \<Rightarrow> kernel_node_params \<Rightarrow> kernel_node_params \<Rightarrow>
   nat \<Rightarrow> graph_node list \<Rightarrow> device_memory \<Rightarrow> real \<Rightarrow> jacobi_result" where
  "SetParams_loop n conv_threshold max_iter x x_new d_sum jacobiKernelNode NodeParams0
     NodeParams1 k graphExec h host_sum =
     (if int k < max_iter
      then (let graphExec = cudaGraphExecKernelNodeSetParams graphExec jacobiKernelNode
                              (if even k then NodeParams0 else NodeParams1);
                st = cudaGraphLaunch n graphExec (h, host_sum);
                h = fst st;
                host_sum = snd st
            in if host_sum \<le> conv_threshold
               then (let h = final_error_pass n x x_new d_sum k h;
                         host_sum = dmem h d_sum
                     in \<lparr>final_memory = h, returned = host_sum, k_exit = k,
                         printed = Some (k + 1, host_sum)\<rparr>)
               else SetParams_loop n conv_threshold max_iter x x_new d_sum jacobiKernelNode
                      NodeParams0 NodeParams1 (k + 1) graphExec h host_sum)
      else \<lparr>final_memory = h, returned = host_sum, k_exit = k, printed = None\<rparr>)"
  by pat_completeness auto
termination
  by (relation "measure (\<lambda>(n, conv_threshold, max_iter, x, x_new, d_sum, jacobiKernelNode,
                            NodeParams0, NodeParams1, k, graphExec, h, s).
                  nat (max_iter - int k))") auto

declare SetParams_loop.simps [simp del]

text \<open>
  Lines 215-324 and 412-414. The memset node clears two 4-byte elements, the eight bytes of
  \<open>*d_sum\<close>. The kernel node carries the six kernel arguments of the CUDA source; the
  local arrays are supplied by the launch.
\<close>

definition JacobiMethodGpuCudaGraphExecKernelSetParams ::
  "nat \<Rightarrow> nat \<Rightarrow> nat \<Rightarrow> real \<Rightarrow> int \<Rightarrow> nat \<Rightarrow> nat \<Rightarrow> nat \<Rightarrow> device_memory \<Rightarrow> jacobi_result" where
  "JacobiMethodGpuCudaGraphExecKernelSetParams n A b conv_threshold max_iter x x_new d_sum h =
     (let nthreads = 256;
          nblocks = n div ROWS_PER_CTA + 2;
          graph = [];
          memsetNode = length graph;
          graph = graph @ [MemsetNode d_sum];
          NodeParams0 = \<lparr>gridDim = nblocks, blockDim = nthreads, arg_A = A, arg_b = b,
                          arg_conv_threshold = conv_threshold, arg_x = x, arg_x_new = x_new,
                          arg_sum = d_sum\<rparr>;
          jacobiKernelNode = length graph;
          graph = graph @ [KernelNode NodeParams0];
          memcpyNode = length graph;
          graph = graph @ [MemcpyNode d_sum];
          graphExec = graph;
          NodeParams1 = \<lparr>gridDim = nblocks, blockDim = nthreads, arg_A = A, arg_b = b,
                          arg_conv_threshold = conv_threshold, arg_x = x_new, arg_x_new = x,
                          arg_sum = d_sum\<rparr>
      in SetParams_loop n conv_threshold max_iter x x_new d_sum jacobiKernelNode NodeParams0
           NodeParams1 0 graphExec h 0)"

text \<open>Lines 443-651. The stream capture records the three operations instead of running them.\<close>

function ExecUpdate_loop ::
  "nat \<Rightarrow> nat \<Rightarrow> nat \<Rightarrow> real \<Rightarrow> int \<Rightarrow> nat \<Rightarrow> nat \<Rightarrow> nat \<Rightarrow> nat \<Rightarrow> graph_node list option \<Rightarrow>
   device_memory \<Rightarrow> real \<Rightarrow> jacobi_result" where
  "ExecUpdate_loop n A b conv_threshold max_iter x x_new d_sum k graphExec h host_sum =
     (if int k < max_iter
      then (let nthreads = 256;
                nblocks = n div ROWS_PER_CTA + 2;
                graph = [MemsetNode d_sum,
                         (if even k
                          then KernelNode \<lparr>gridDim = nblocks, blockDim = nthreads, arg_A = A,
                                 arg_b = b, arg_conv_threshold = conv_threshold, arg_x = x,
                                 arg_x_new = x_new, arg_sum = d_sum\<rparr>
                          else KernelNode \<lparr>gridDim = nblocks, blockDim = nthreads, arg_A = A,
                                 arg_b = b, arg_conv_threshold = conv_threshold, arg_x = x_new,
                                 arg_x_new = x, arg_sum = d_sum\<rparr>),
                         MemcpyNode d_sum];
                graphExec = (case graphExec of
                               None \<Rightarrow> graph
                             | Some e \<Rightarrow> (let r = cudaGraphExecUpdate e graph
                                          in if \<not> snd r then graph else fst r));
                st = cudaGraphLaunch n graphExec (h, host_sum);
                h = fst st;
                host_sum = snd st
            in if host_sum \<le> conv_threshold
               then (let h = final_error_pass n x x_new d_sum k h;
                         host_sum = dmem h d_sum
                     in \<lparr>final_memory = h, returned = host_sum, k_exit = k,
                         printed = Some (k + 1, host_sum)\<rparr>)
               else ExecUpdate_loop n A b conv_threshold max_iter x x_new d_sum (k + 1)
                      (Some graphExec) h host_sum)
      else \<lparr>final_memory = h, returned = host_sum, k_exit = k, printed = None\<rparr>)"
  by pat_completeness auto
termination
  by (relation "measure (\<lambda>(n, A, b, conv_threshold, max_iter, x, x_new, d_sum, k, graphExec,
                            h, s). nat (max_iter - int k))") auto

declare ExecUpdate_loop.simps [simp del]

definition JacobiMethodGpuCudaGraphExecUpdate ::
  "nat \<Rightarrow> nat \<Rightarrow> nat \<Rightarrow> real \<Rightarrow> int \<Rightarrow> nat \<Rightarrow> nat \<Rightarrow> nat \<Rightarrow> device_memory \<Rightarrow> jacobi_result" where
  "JacobiMethodGpuCudaGraphExecUpdate n A b conv_threshold max_iter x x_new d_sum h =
     ExecUpdate_loop n A b conv_threshold max_iter x x_new d_sum 0 None h 0"

section \<open>Separable convolution (convolutionSeparable.dp.cpp)\<close>

text \<open>
  A value of the C++ type \<open>float\<close> is a finite number, an infinity or a NaN. Sums and
  products follow IEEE 754 on the infinities and on NaN: \<open>0 * \<infinity>\<close> and \<open>\<infinity> - \<infinity>\<close> are NaN, and a
  NaN operand gives NaN. On finite numbers they are exact: rounding, overflow to an infinity
  and the sign of zero are not modelled.
\<close>

datatype float = Finite real | PInf | NInf | NaN

fun isfinite :: "float \<Rightarrow> bool" where
  "isfinite (Finite a) = True"
| "isfinite PInf = False"
| "isfinite NInf = False"
| "isfinite NaN = False"

fun float_add :: "float \<Rightarrow> float \<Rightarrow> float" where
  "float_add (Finite a) (Finite b) = Finite (a + b)"
| "float_add (Finite a) PInf = PInf"
| "float_add (Finite a) NInf = NInf"
| "float_add PInf (Finite b) = PInf"
| "float_add NInf (Finite b) = NInf"
| "float_add PInf PInf = PInf"
| "float_add NInf NInf = NInf"
| "float_add PInf NInf = NaN"
| "float_add NInf PInf = NaN"
| "float_add NaN y = NaN"
| "float_add (Finite a) NaN = NaN"
| "float_add PInf NaN = NaN"
| "float_add NInf NaN = NaN"

fun float_mul :: "float \<Rightarrow> float \<Rightarrow> float" where
  "float_mul (Finite a) (Finite b) = Finite (a * b)"
| "float_mul (Finite a) PInf = (if a = 0 then NaN else if 0 < a then PInf else NInf)"
| "float_mul (Finite a) NInf = (if a = 0 then NaN else if 0 < a then NInf else PInf)"
| "float_mul PInf (Finite b) = (if b = 0 then NaN else if 0 < b then PInf else NInf)"
| "float_mul NInf (Finite b) = (if b = 0 then NaN else if 0 < b then NInf else PInf)"
| "float_mul PInf PInf = PInf"
| "float_mul NInf NInf = PInf"
| "float_mul PInf NInf = NInf"
| "float_mul NInf PInf = NInf"
| "float_mul NaN y = NaN"
| "float_mul (Finite a) NaN = NaN"
| "float_mul PInf NaN = NaN"
| "float_mul NInf NaN = NaN"

instantiation float :: comm_monoid_add
begin

definition zero_float_def: "0 = Finite 0"

definition plus_float_def: "x + y = float_add x y"

instance
proof
  fix a b c :: float
  show "a + b + c = a + (b + c)"
    unfolding plus_float_def by (cases a; cases b; cases c) simp_all
  show "a + b = b + a"
    unfolding plus_float_def by (cases a; cases b) simp_all
  show "0 + a = a"
    unfolding plus_float_def zero_float_def by (cases a) simp_all
qed

end

instantiation float :: "{one, times}"
begin

definition one_float_def: "1 = Finite 1"

definition times_float_def: "x * y = float_mul x y"

instance ..

end

text \<open>
  The image buffers live in one store of floats, addressed by integers: \<open>d_Src\<close> and
  \<open>d_Dst\<close> are addresses and \<open>p[i]\<close> is the cell at \<open>p + i\<close>, also for the negative offsets
  that the kernels form before they test them. The offsets are of the C++ type \<open>int\<close>, and
  signed overflow is undefined there: they are integers here, and the theorems on the
  kernels take \<open>imageW * imageH < 2 ^ 31\<close>, under which every offset that the kernels
  compute fits 32 bits (\<open>rows_offsets_fit\<close>, \<open>columns_offsets_fit\<close>).

  \<open>KERNEL_RADIUS\<close> is defined in \<open>convolutionSeparable_common.h\<close>; it is the parameter \<open>R\<close>.
  The coefficients \<open>c_Kernel\<close> are a constant array of their own.
\<close>

type_synonym fcells = "int \<Rightarrow> float"

type_synonym tile = "int \<times> int \<Rightarrow> float"

definition ROWS_BLOCKDIM_X :: int where "ROWS_BLOCKDIM_X = 16"
definition ROWS_BLOCKDIM_Y :: int where "ROWS_BLOCKDIM_Y = 4"
definition ROWS_RESULT_STEPS :: int where "ROWS_RESULT_STEPS = 8"
definition ROWS_HALO_STEPS :: int where "ROWS_HALO_STEPS = 1"

definition COLUMNS_BLOCKDIM_X :: int where "COLUMNS_BLOCKDIM_X = 16"
definition COLUMNS_BLOCKDIM_Y :: int where "COLUMNS_BLOCKDIM_Y = 8"
definition COLUMNS_RESULT_STEPS :: int where "COLUMNS_RESULT_STEPS = 8"
definition COLUMNS_HALO_STEPS :: int where "COLUMNS_HALO_STEPS = 1"

text \<open>\<open>for (int i = lo; i < hi; i++) body\<close>\<close>

function for_loop :: "int \<Rightarrow> int \<Rightarrow> (int \<Rightarrow> 's \<Rightarrow> 's) \<Rightarrow> 's \<Rightarrow> 's" where
  "for_loop i hi body s = (if i < hi then for_loop (i + 1) hi body (body i s) else s)"
  by pat_completeness auto
termination
  by (relation "measure (\<lambda>(i, hi, body, s). nat (hi - i))") auto

declare for_loop.simps [simp del]

text \<open>
  The work-items of a work-group of \<open>ny\<close> by \<open>nx\<close>, and the work-groups of a grid of \<open>ny\<close> by
  \<open>nx\<close>, as pairs \<open>(y, x)\<close> of their ids in dimensions 1 and 2.
\<close>

definition work_items :: "int \<Rightarrow> int \<Rightarrow> (int \<times> int) list" where
  "work_items ny nx = List.product [0..ny - 1] [0..nx - 1]"

subsection \<open>Row filter\<close>

text \<open>
  Lines 64-100, the work-item \<open>(ly, lx)\<close> of the work-group \<open>(gy, gx)\<close>: main data, left halo
  and right halo go to the tile \<open>s_Data\<close>.
\<close>

definition rows_load ::
  "fcells \<Rightarrow> int \<Rightarrow> int \<Rightarrow> int \<Rightarrow> int \<Rightarrow> int \<Rightarrow> int \<Rightarrow> int \<Rightarrow> tile \<Rightarrow> tile" where
  "rows_load mem d_Src imageW pitch gx gy lx ly s_Data =
     (let baseX = (gx * ROWS_RESULT_STEPS - ROWS_HALO_STEPS) * ROWS_BLOCKDIM_X + lx;
          baseY = gy * ROWS_BLOCKDIM_Y + ly;
          d_Src = d_Src + (baseY * pitch + baseX);
          s_Data = for_loop ROWS_HALO_STEPS (ROWS_HALO_STEPS + ROWS_RESULT_STEPS)
                     (\<lambda>i s. s((ly, lx + i * ROWS_BLOCKDIM_X) := mem (d_Src + i * ROWS_BLOCKDIM_X)))
                     s_Data;
          s_Data = for_loop 0 ROWS_HALO_STEPS
                     (\<lambda>i s. s((ly, lx + i * ROWS_BLOCKDIM_X) :=
                               (if baseX \<ge> - i * ROWS_BLOCKDIM_X
                                then mem (d_Src + i * ROWS_BLOCKDIM_X) else 0)))
                     s_Data;
          s_Data = for_loop (ROWS_HALO_STEPS + ROWS_RESULT_STEPS)
                     (ROWS_HALO_STEPS + ROWS_RESULT_STEPS + ROWS_HALO_STEPS)
                     (\<lambda>i s. s((ly, lx + i * ROWS_BLOCKDIM_X) :=
                               (if imageW - baseX > i * ROWS_BLOCKDIM_X
                                then mem (d_Src + i * ROWS_BLOCKDIM_X) else 0)))
                     s_Data
      in s_Data)"

text \<open>Lines 111-123, after the barrier: the work-item computes and stores its results.\<close>

definition rows_store ::
  "int \<Rightarrow> fcells \<Rightarrow> int \<Rightarrow> int \<Rightarrow> int \<Rightarrow> int \<Rightarrow> int \<Rightarrow> int \<Rightarrow> tile \<Rightarrow> fcells \<Rightarrow> fcells" where
  "rows_store R c_Kernel d_Dst pitch gx gy lx ly s_Data mem =
     (let baseX = (gx * ROWS_RESULT_STEPS - ROWS_HALO_STEPS) * ROWS_BLOCKDIM_X + lx;
          baseY = gy * ROWS_BLOCKDIM_Y + ly;
          d_Dst = d_Dst + (baseY * pitch + baseX)
      in for_loop ROWS_HALO_STEPS (ROWS_HALO_STEPS + ROWS_RESULT_STEPS)
           (\<lambda>i m. (let acc = for_loop (- R) (R + 1)
                                (\<lambda>j acc. acc + c_Kernel (R - j)
                                                * s_Data (ly, lx + i * ROWS_BLOCKDIM_X + j))
                                0
                    in m(d_Dst + i * ROWS_BLOCKDIM_X := acc)))
           mem)"

text \<open>One work-group \<open>g = (gy, gx)\<close> running \<open>convolutionRowsKernel\<close>.\<close>

definition convolutionRowsKernel ::
  "int \<Rightarrow> fcells \<Rightarrow> int \<Rightarrow> int \<Rightarrow> int \<Rightarrow> int \<Rightarrow> int \<Rightarrow> int \<times> int \<Rightarrow> tile \<Rightarrow> fcells \<Rightarrow> fcells" where
  "convolutionRowsKernel R c_Kernel d_Dst d_Src imageW imageH pitch g s_Data mem =
     (let items = work_items ROWS_BLOCKDIM_Y ROWS_BLOCKDIM_X;
          s_Data = fold (\<lambda>(ly, lx). rows_load mem d_Src imageW pitch (snd g) (fst g) lx ly)
                     items s_Data
      in fold (\<lambda>(ly, lx). rows_store R c_Kernel d_Dst pitch (snd g) (fst g) lx ly s_Data)
           items mem)"

text \<open>
  The host functions. A failing \<open>assert\<close> ends the program before anything is launched.
  \<open>%\<close> and \<open>/\<close> on \<open>int\<close> truncate towards zero; the components of \<open>dpct::dim3\<close> are
  unsigned 32-bit.
\<close>

datatype error = AssertionFailed

definition uint32 :: "int \<Rightarrow> int" where
  "uint32 v = v mod 2 ^ 32"

definition convolutionRowsGPU ::
  "int \<Rightarrow> fcells \<Rightarrow> int \<Rightarrow> int \<Rightarrow> int \<Rightarrow> int \<Rightarrow> fcells \<Rightarrow> error + fcells" where
  "convolutionRowsGPU R c_Kernel d_Dst d_Src imageW imageH mem =
     (if \<not> (ROWS_BLOCKDIM_X * ROWS_HALO_STEPS \<ge> R) then Inl AssertionFailed
      else if \<not> (imageW smod (ROWS_RESULT_STEPS * ROWS_BLOCKDIM_X) = 0) then Inl AssertionFailed
      else if \<not> (imageH smod ROWS_BLOCKDIM_Y = 0) then Inl AssertionFailed
      else (let blocks_x = uint32 (imageW sdiv (ROWS_RESULT_STEPS * ROWS_BLOCKDIM_X));
                blocks_y = uint32 (imageH sdiv ROWS_BLOCKDIM_Y)
            in Inr (fold (\<lambda>g. convolutionRowsKernel R c_Kernel d_Dst d_Src imageW imageH imageW
                                g (\<lambda>_. 0))
                      (work_items blocks_y blocks_x) mem)))"

subsection \<open>Column filter\<close>

text \<open>Lines 190-231.\<close>

definition columns_load ::
  "fcells \<Rightarrow> int \<Rightarrow> int \<Rightarrow> int \<Rightarrow> int \<Rightarrow> int \<Rightarrow> int \<Rightarrow> int \<Rightarrow> tile \<Rightarrow> tile" where
  "columns_load mem d_Src imageH pitch gx gy lx ly s_Data =
     (let baseX = gx * COLUMNS_BLOCKDIM_X + lx;
          baseY = (gy * COLUMNS_RESULT_STEPS - COLUMNS_HALO_STEPS) * COLUMNS_BLOCKDIM_Y + ly;
          d_Src = d_Src + (baseY * pitch + baseX);
          s_Data = for_loop COLUMNS_HALO_STEPS (COLUMNS_HALO_STEPS + COLUMNS_RESULT_STEPS)
                     (\<lambda>i s. s((lx, ly + i * COLUMNS_BLOCKDIM_Y) :=
                               mem (d_Src + i * COLUMNS_BLOCKDIM_Y * pitch)))
                     s_Data;
          s_Data = for_loop 0 COLUMNS_HALO_STEPS
                     (\<lambda>i s. s((lx, ly + i * COLUMNS_BLOCKDIM_Y) :=
                               (if baseY \<ge> - i * COLUMNS_BLOCKDIM_Y
                                then mem (d_Src + i * COLUMNS_BLOCKDIM_Y * pitch) else 0)))
                     s_Data;
          s_Data = for_loop (COLUMNS_HALO_STEPS + COLUMNS_RESULT_STEPS)
                     (COLUMNS_HALO_STEPS + COLUMNS_RESULT_STEPS + COLUMNS_HALO_STEPS)
                     (\<lambda>i s. s((lx, ly + i * COLUMNS_BLOCKDIM_Y) :=
                               (if imageH - baseY > i * COLUMNS_BLOCKDIM_Y
                                then mem (d_Src + i * COLUMNS_BLOCKDIM_Y * pitch) else 0)))
                     s_Data
      in s_Data)"

text \<open>Lines 242-254.\<close>

definition columns_store ::
  "int \<Rightarrow> fcells \<Rightarrow> int \<Rightarrow> int \<Rightarrow> int \<Rightarrow> int \<Rightarrow> int \<Rightarrow> int \<Rightarrow> tile \<Rightarrow> fcells \<Rightarrow> fcells" where
  "columns_store R c_Kernel d_Dst pitch gx gy lx ly s_Data mem =
     (let baseX = gx * COLUMNS_BLOCKDIM_X + lx;
          baseY = (gy * COLUMNS_RESULT_STEPS - COLUMNS_HALO_STEPS) * COLUMNS_BLOCKDIM_Y + ly;
          d_Dst = d_Dst + (baseY * pitch + baseX)
      in for_loop COLUMNS_HALO_STEPS (COLUMNS_HALO_STEPS + COLUMNS_RESULT_STEPS)
           (\<lambda>i m. (let acc = for_loop (- R) (R + 1)
                                (\<lambda>j acc. acc + c_Kernel (R - j)
                                                * s_Data (lx, ly + i * COLUMNS_BLOCKDIM_Y + j))
                                0
                    in m(d_Dst + i * COLUMNS_BLOCKDIM_Y * pitch := acc)))
           mem)"

definition convolutionColumnsKernel ::
  "int \<Rightarrow> fcells \<Rightarrow> int \<Rightarrow> int \<Rightarrow> int \<Rightarrow> int \<Rightarrow> int \<Rightarrow> int \<times> int \<Rightarrow> tile \<Rightarrow> fcells \<Rightarrow> fcells" where
  "convolutionColumnsKernel R c_Kernel d_Dst d_Src imageW imageH pitch g s_Data mem =
     (let items = work_items COLUMNS_BLOCKDIM_Y COLUMNS_BLOCKDIM_X;
          s_Data = fold (\<lambda>(ly, lx). columns_load mem d_Src imageH pitch (snd g) (fst g) lx ly)
                     items s_Data
      in fold (\<lambda>(ly, lx). columns_store R c_Kernel d_Dst pitch (snd g) (fst g) lx ly s_Data)
           items mem)"

definition convolutionColumnsGPU ::
  "int \<Rightarrow> fcells \<Rightarrow> int \<Rightarrow> int \<Rightarrow> int \<Rightarrow> int \<Rightarrow> fcells \<Rightarrow> error + fcells" where
  "convolutionColumnsGPU R c_Kernel d_Dst d_Src imageW imageH mem =
     (if \<not> (COLUMNS_BLOCKDIM_Y * COLUMNS_HALO_STEPS \<ge> R) then Inl AssertionFailed
      else if \<not> (imageW smod COLUMNS_BLOCKDIM_X = 0) then Inl AssertionFailed
      else if \<not> (imageH smod (COLUMNS_RESULT_STEPS * COLUMNS_BLOCKDIM_Y) = 0)
           then Inl AssertionFailed
      else (let blocks_x = uint32 (imageW sdiv COLUMNS_BLOCKDIM_X);
                blocks_y = uint32 (imageH sdiv (COLUMNS_RESULT_STEPS * COLUMNS_BLOCKDIM_Y))
            in Inr (fold (\<lambda>g. convolutionColumnsKernel R c_Kernel d_Dst d_Src imageW imageH
                                imageW g (\<lambda>_. 0))
                      (work_items blocks_y blocks_x) mem)))"

subsection \<open>The convolution that the specification names\<close>

text \<open>
  A source pixel, with zero for a column (a row) outside the image, and the weighted sums
  along a row and along a column.
\<close>

definition padded_pixel :: "fcells \<Rightarrow> int \<Rightarrow> int \<Rightarrow> int \<Rightarrow> int \<Rightarrow> int \<Rightarrow> float" where
  "padded_pixel mem d_Src imageW imageH y x =
     (if 0 \<le> x \<and> x < imageW \<and> 0 \<le> y \<and> y < imageH then mem (d_Src + y * imageW + x) else 0)"

definition row_convolution ::
  "int \<Rightarrow> fcells \<Rightarrow> fcells \<Rightarrow> int \<Rightarrow> int \<Rightarrow> int \<Rightarrow> int \<Rightarrow> int \<Rightarrow> float" where
  "row_convolution R c_Kernel mem d_Src imageW imageH y x =
     (\<Sum>j = - R..R. c_Kernel (R - j) * padded_pixel mem d_Src imageW imageH y (x + j))"

definition column_convolution ::
  "int \<Rightarrow> fcells \<Rightarrow> fcells \<Rightarrow> int \<Rightarrow> int \<Rightarrow> int \<Rightarrow> int \<Rightarrow> int \<Rightarrow> float" where
  "column_convolution R c_Kernel mem d_Src imageW imageH y x =
     (\<Sum>j = - R..R. c_Kernel (R - j) * padded_pixel mem d_Src imageW imageH (y + j) x)"

text \<open>The image at \<open>d_Src\<close> and the image at \<open>d_Dst\<close> do not overlap.\<close>

definition images_apart :: "int \<Rightarrow> int \<Rightarrow> int \<Rightarrow> int \<Rightarrow> bool" where
  "images_apart d_Dst d_Src imageW imageH \<longleftrightarrow>
     d_Dst + imageW * imageH \<le> d_Src \<or> d_Src + imageW * imageH \<le> d_Dst"

text \<open>
  The pixel that an address of the destination image stands for, the content of the tile
  of a work-group of the row filter once it is loaded, and the addresses that the
  work-group writes.
\<close>

definition pixel_y :: "int \<Rightarrow> int \<Rightarrow> int \<Rightarrow> int" where
  "pixel_y d_Dst imageW a = (a - d_Dst) div imageW"

definition pixel_x :: "int \<Rightarrow> int \<Rightarrow> int \<Rightarrow> int" where
  "pixel_x d_Dst imageW a = (a - d_Dst) mod imageW"

definition rows_tile :: "fcells \<Rightarrow> int \<Rightarrow> int \<Rightarrow> int \<Rightarrow> int \<Rightarrow> int \<Rightarrow> tile" where
  "rows_tile mem d_Src imageW imageH gx gy =
     (\<lambda>k. padded_pixel mem d_Src imageW imageH (gy * 4 + fst k) (gx * 128 - 16 + snd k))"


definition rows_in_tile :: "int \<Rightarrow> int \<Rightarrow> int \<times> int \<Rightarrow> int \<Rightarrow> bool" where
  "rows_in_tile d_Dst imageW g a \<longleftrightarrow>
     (\<exists>y x. fst g * 4 \<le> y \<and> y < fst g * 4 + 4 \<and> snd g * 128 \<le> x \<and> x < snd g * 128 + 128
            \<and> a = d_Dst + y * imageW + x)"


text \<open>The same for a work-group of the column filter.\<close>

definition columns_tile :: "fcells \<Rightarrow> int \<Rightarrow> int \<Rightarrow> int \<Rightarrow> int \<Rightarrow> int \<Rightarrow> tile" where
  "columns_tile mem d_Src imageW imageH gx gy =
     (\<lambda>k. padded_pixel mem d_Src imageW imageH (gy * 64 - 8 + snd k) (gx * 16 + fst k))"

definition columns_in_tile :: "int \<Rightarrow> int \<Rightarrow> int \<times> int \<Rightarrow> int \<Rightarrow> bool" where
  "columns_in_tile d_Dst imageW g a \<longleftrightarrow>
     (\<exists>y x. fst g * 64 \<le> y \<and> y < fst g * 64 + 64 \<and> snd g * 16 \<le> x \<and> x < snd g * 16 + 16
            \<and> a = d_Dst + y * imageW + x)"

text \<open>The values of the C++ type \<open>int\<close>, which has 32 bits.\<close>

definition int_range :: "int \<Rightarrow> bool" where
  "int_range v \<longleftrightarrow> - (2 ^ 31) \<le> v \<and> v < 2 ^ 31"

text \<open>
  The kernel \<open>[0, 0, 1, 0, 0]\<close>, and an image that is zero but for the pixel at address 0,
  which is \<open>+\<infinity>\<close>.
\<close>

definition identity_kernel :: fcells where
  "identity_kernel = (\<lambda>i. if i = 2 then 1 else 0)"

definition infinite_pixel :: fcells where
  "infinite_pixel = (\<lambda>a. if a = 0 then PInf else 0)"

subsection \<open>The Jacobi update in closed form\<close>

text \<open>
  The quantities that the specification names: the dot product of row \<open>i\<close> with the
  iterate, the update \<open>dx\<close> of row \<open>i\<close>, and the rows of work-group \<open>g\<close> that exist.
\<close>

definition row_dot :: "nat \<Rightarrow> nat \<Rightarrow> nat \<Rightarrow> device_memory \<Rightarrow> nat \<Rightarrow> real" where
  "row_dot n A x h i = (\<Sum>j<n. fmem h (A + (i * n + j)) * dmem h (x + j))"

definition jacobi_dx :: "nat \<Rightarrow> nat \<Rightarrow> nat \<Rightarrow> nat \<Rightarrow> device_memory \<Rightarrow> nat \<Rightarrow> real" where
  "jacobi_dx n A b x h i = (dmem h (b + i) - row_dot n A x h i) / fmem h (A + (i * n + i))"

definition owned_rows :: "nat \<Rightarrow> nat \<Rightarrow> nat set" where
  "owned_rows n g = {g * ROWS_PER_CTA..<min n (g * ROWS_PER_CTA + ROWS_PER_CTA)}"

definition rows_written :: "nat \<Rightarrow> nat \<Rightarrow> nat \<Rightarrow> nat \<Rightarrow> nat \<Rightarrow> nat \<Rightarrow> device_memory \<Rightarrow> cells" where
  "rows_written n A b x x_new g h =
     (\<lambda>a. if x_new \<le> a \<and> a - x_new \<in> owned_rows n g
          then dmem h (x + (a - x_new)) + jacobi_dx n A b x h (a - x_new)
          else dmem h a)"


text \<open>
  Where the buffers lie: \<open>outside a p n\<close> says that the address \<open>a\<close> is no cell of the
  array of \<open>n\<close> cells at \<open>p\<close>, and \<open>apart p q n\<close> that the arrays of \<open>n\<close> cells at \<open>p\<close>
  and at \<open>q\<close> do not overlap.
\<close>

definition outside :: "nat \<Rightarrow> nat \<Rightarrow> nat \<Rightarrow> bool" where
  "outside a p n \<longleftrightarrow> a < p \<or> p + n \<le> a"

definition apart :: "nat \<Rightarrow> nat \<Rightarrow> nat \<Rightarrow> bool" where
  "apart p q n \<longleftrightarrow> p + n \<le> q \<or> q + n \<le> p"

text \<open>
  One Jacobi sweep over all rows, as the specification describes a launch of the kernel:
  every \<open>x_new[i]\<close> is \<open>x[i] + dx\<close> and the accumulator has grown by the sum of all \<open>\<bar>dx\<bar>\<close>.
\<close>

definition jacobi_sweep ::
  "nat \<Rightarrow> nat \<Rightarrow> nat \<Rightarrow> nat \<Rightarrow> nat \<Rightarrow> nat \<Rightarrow> device_memory \<Rightarrow> device_memory" where
  "jacobi_sweep n A b x x_new sum_ptr h =
     h\<lparr>dmem := (\<lambda>a. if a = sum_ptr
                     then dmem h sum_ptr + (\<Sum>i<n. \<bar>jacobi_dx n A b x h i\<bar>)
                     else if x_new \<le> a \<and> a - x_new < n
                          then dmem h (x + (a - x_new)) + jacobi_dx n A b x h (a - x_new)
                          else dmem h a)\<rparr>"


text \<open>The L1 distance of the array at \<open>x\<close> from the all-ones vector.\<close>

definition l1_error :: "nat \<Rightarrow> nat \<Rightarrow> device_memory \<Rightarrow> real" where
  "l1_error n x h = (\<Sum>i<n. \<bar>dmem h (x + i) - 1\<bar>)"


text \<open>
  The buffers of a solve: \<open>b\<close>, \<open>x\<close> and \<open>x_new\<close> do not overlap and the accumulator
  \<open>d_sum\<close> is a cell of none of them.
\<close>

definition separate :: "nat \<Rightarrow> nat \<Rightarrow> nat \<Rightarrow> nat \<Rightarrow> nat \<Rightarrow> bool" where
  "separate n b x x_new d_sum \<longleftrightarrow>
     apart x x_new n \<and> apart x b n \<and> apart x_new b n \<and>
     outside d_sum x n \<and> outside d_sum x_new n \<and> outside d_sum b n"


text \<open>
  The device memory after the first \<open>k\<close> passes of the driver loop, and the value that
  the accumulator \<open>d_sum\<close> holds when pass \<open>k\<close> has run: the residual that the driver
  reads back and compares with the threshold.
\<close>

primrec passes ::
  "nat \<Rightarrow> nat \<Rightarrow> nat \<Rightarrow> real \<Rightarrow> nat \<Rightarrow> nat \<Rightarrow> nat \<Rightarrow> nat \<Rightarrow> device_memory \<Rightarrow> device_memory" where
  "passes n A b conv_threshold x x_new d_sum 0 h = h"
| "passes n A b conv_threshold x x_new d_sum (Suc k) h =
     jacobi_pass n A b conv_threshold x x_new d_sum k
       (passes n A b conv_threshold x x_new d_sum k h)"

definition residual ::
  "nat \<Rightarrow> nat \<Rightarrow> nat \<Rightarrow> real \<Rightarrow> nat \<Rightarrow> nat \<Rightarrow> nat \<Rightarrow> device_memory \<Rightarrow> nat \<Rightarrow> real" where
  "residual n A b conv_threshold x x_new d_sum h k =
     dmem (passes n A b conv_threshold x x_new d_sum (Suc k) h) d_sum"


text \<open>
  A system of two equations, used to run the definitions: \<open>A = [[4, 1], [1, 4]]\<close> at
  address 0 of the floats, \<open>b = [5, 5]\<close> at address 0 of the doubles, and zeros elsewhere
  (the solution is \<open>x = [1, 1]\<close>).
\<close>

definition example_memory :: device_memory where
  "example_memory =
     \<lparr>fmem = (\<lambda>a. if a = 0 then 4 else if a = 1 then 1 else if a = 2 then 1
                   else if a = 3 then 4 else 0),
      dmem = (\<lambda>a. if a < 2 then 5 else 0)\<rparr>"

text \<open>The same system with the iterate already at the solution \<open>x = [1, 1]\<close>.\<close>

definition solved_memory :: device_memory where
  "solved_memory =
     \<lparr>fmem = (\<lambda>a. if a = 0 then 4 else if a = 1 then 1 else if a = 2 then 1
                   else if a = 3 then 4 else 0),
      dmem = (\<lambda>a. if a < 2 then 5 else if a = 10 \<or> a = 11 then 1 else 0)\<rparr>"


section \<open>Properties of the Jacobi solver\<close>

subsection \<open>Loops and reductions\<close>

lemma owned_row_loop_once:
  "owned_row_loop n k i body s = (if k < ROWS_PER_CTA \<and> i < n then body i s else s)"
  by (subst owned_row_loop.simps, subst owned_row_loop.simps) simp

lemma stride_set_step:
  assumes "i < n" "0 < (step::nat)"
  shows "{j. i \<le> j \<and> j < n \<and> (j - i) mod step = 0}
       = insert i {j. i + step \<le> j \<and> j < n \<and> (j - (i + step)) mod step = 0}"
proof -
  have key: "(j - i) mod step = 0 \<longleftrightarrow> j = i \<or> (i + step \<le> j \<and> (j - (i + step)) mod step = 0)"
    if "i \<le> j" for j
  proof (cases "j = i")
    case True then show ?thesis by simp
  next
    case False
    with that have lt: "i < j" by simp
    show ?thesis
    proof
      assume m: "(j - i) mod step = 0"
      then obtain q where q: "j - i = step * q" by auto
      with lt have "q \<noteq> 0" by (cases q) auto
      then obtain q' where "q = Suc q'" by (cases q) auto
      with q have "j - i = step + step * q'" by simp
      with lt have "i + step \<le> j" "j - (i + step) = step * q'" by simp_all
      then show "j = i \<or> (i + step \<le> j \<and> (j - (i + step)) mod step = 0)" by simp
    next
      assume "j = i \<or> (i + step \<le> j \<and> (j - (i + step)) mod step = 0)"
      with False have a: "i + step \<le> j" and b: "(j - (i + step)) mod step = 0" by auto
      from b obtain q where "j - (i + step) = step * q" by auto
      with a have "j - i = step * Suc q" by simp
      then show "(j - i) mod step = 0" by (metis mod_mult_self1_is_0)
    qed
  qed
  show ?thesis
  proof (rule set_eqI)
    fix j
    show "j \<in> {j. i \<le> j \<and> j < n \<and> (j - i) mod step = 0} \<longleftrightarrow>
          j \<in> insert i {j. i + step \<le> j \<and> j < n \<and> (j - (i + step)) mod step = 0}"
    proof (cases "i \<le> j")
      case True
      show ?thesis
      proof (cases "j = i")
        case eq: True
        with assms(1) key[OF True] show ?thesis by simp
      next
        case ne: False
        with key[OF True] True show ?thesis
          unfolding mem_Collect_eq insert_iff by argo
      qed
    next
      case False
      then show ?thesis by auto
    qed
  qed
qed

lemma stride_loop_sum:
  "0 < step \<Longrightarrow>
   stride_loop i n step (\<lambda>j s. s + f j) (a::real)
     = a + (\<Sum>j | i \<le> j \<and> j < n \<and> (j - i) mod step = 0. f j)"
proof (induction i n step "\<lambda>j (s::real). s + f j" a rule: stride_loop.induct)
  case (1 i n step s)
  show ?case
  proof (cases "i < n")
    case True
    have fin: "finite {j. i + step \<le> j \<and> j < n \<and> (j - (i + step)) mod step = 0}" by simp
    have notin: "i \<notin> {j. i + step \<le> j \<and> j < n \<and> (j - (i + step)) mod step = 0}"
      using "1.prems" by simp
    from True "1.prems" "1.hyps" have
      "stride_loop i n step (\<lambda>j s. s + f j) s
        = s + f i + (\<Sum>j | i + step \<le> j \<and> j < n \<and> (j - (i + step)) mod step = 0. f j)"
      by (subst stride_loop.simps) simp
    also have "\<dots> = s + (\<Sum>j | i \<le> j \<and> j < n \<and> (j - i) mod step = 0. f j)"
      by (simp only: stride_set_step[OF True "1.prems"] sum.insert[OF fin notin] add.assoc)
    finally show ?thesis .
  next
    case False
    then have E: "{j. i \<le> j \<and> j < n \<and> (j - i) mod step = 0} = {}" by auto
    from False show ?thesis by (subst stride_loop.simps) (simp add: E)
  qed
qed

lemma stride_loop_upd:
  "0 < step \<Longrightarrow>
   stride_loop i n step (\<lambda>j s. s(j := f j)) s a
     = (if i \<le> a \<and> a < n \<and> (a - i) mod step = 0 then f a else s a)"
proof (induction i n step "\<lambda>j (s::nat \<Rightarrow> 'a). s(j := f j)" s rule: stride_loop.induct)
  case (1 i n step s)
  show ?case
  proof (cases "i < n")
    case True
    have "a \<in> {j. i \<le> j \<and> j < n \<and> (j - i) mod step = 0} \<longleftrightarrow>
          a \<in> insert i {j. i + step \<le> j \<and> j < n \<and> (j - (i + step)) mod step = 0}"
      by (simp only: stride_set_step[OF True "1.prems"])
    then have eq: "(i \<le> a \<and> a < n \<and> (a - i) mod step = 0) \<longleftrightarrow>
          (a = i \<or> (i + step \<le> a \<and> a < n \<and> (a - (i + step)) mod step = 0))" by simp
    from True "1.prems" "1.hyps" have
      "stride_loop i n step (\<lambda>j s. s(j := f j)) s a
        = (if i + step \<le> a \<and> a < n \<and> (a - (i + step)) mod step = 0 then f a
           else (s(i := f i)) a)"
      by (subst stride_loop.simps) simp
    also have "\<dots> = (if i \<le> a \<and> a < n \<and> (a - i) mod step = 0 then f a else s a)"
      unfolding eq by auto
    finally show ?thesis .
  next
    case False
    then show ?thesis by (subst stride_loop.simps) auto
  qed
qed

lemma stride_residue:
  assumes "t < step"
  shows "(t \<le> j \<and> (j - t) mod step = 0) \<longleftrightarrow> j mod step = (t::nat)"
proof
  assume a: "t \<le> j \<and> (j - t) mod step = 0"
  then obtain q where "j - t = step * q" by auto
  with a have "j = t + step * q" by simp
  with assms show "j mod step = t" by simp
next
  assume m: "j mod step = t"
  have "j = step * (j div step) + j mod step" by simp
  with m have j: "j = step * (j div step) + t" by simp
  then have "t \<le> j" by linarith
  moreover from j have "j - t = step * (j div step)" by linarith
  ultimately show "t \<le> j \<and> (j - t) mod step = 0" by (metis mod_mult_self1_is_0)
qed

lemma sum_by_residue:
  assumes "0 < (step::nat)"
  shows "(\<Sum>t<step. \<Sum>j | j < n \<and> j mod step = t. f j) = (\<Sum>j<(n::nat). (f j :: real))"
proof -
  have "(\<Sum>t\<in>{..<step}. \<Sum>j | j \<in> {..<n} \<and> j mod step = t. f j) = sum f {..<n}"
    by (rule sum.group) (use assms in auto)
  then show ?thesis by simp
qed

lemma strided_total:
  assumes "0 < bdim"
  shows "(\<Sum>t<bdim. stride_loop t n bdim (\<lambda>j s. s + f j) (0::real)) = (\<Sum>j<n. f j)"
proof -
  have "stride_loop t n bdim (\<lambda>j s. s + f j) 0 = (\<Sum>j | j < n \<and> j mod bdim = t. f j)"
    if "t < bdim" for t
  proof -
    have "{j. t \<le> j \<and> j < n \<and> (j - t) mod bdim = 0} = {j. j < n \<and> j mod bdim = t}"
    proof (rule Collect_cong)
      fix j
      show "(t \<le> j \<and> j < n \<and> (j - t) mod bdim = 0) = (j < n \<and> j mod bdim = t)"
        using stride_residue[OF that, of j] by argo
    qed
    then show ?thesis by (simp add: stride_loop_sum[OF assms])
  qed
  then have "(\<Sum>t<bdim. stride_loop t n bdim (\<lambda>j s. s + f j) 0)
           = (\<Sum>t<bdim. \<Sum>j | j < n \<and> j mod bdim = t. f j)" by simp
  then show ?thesis by (simp only: sum_by_residue[OF assms])
qed

lemma sum_split_double:
  "(\<Sum>l = 0..<2 * (m::nat). (g l :: real)) = (\<Sum>l = 0..<m. g l + g (l + m))"
proof -
  have "(\<Sum>l = 0..<2 * m. g l) = (\<Sum>l = 0..<m. g l) + (\<Sum>l = m..<2 * m. g l)"
    by (rule sum.atLeastLessThan_concat[symmetric]) simp_all
  also have "(\<Sum>l = m..<2 * m. g l) = (\<Sum>l = 0..<m. g (l + m))"
    using sum.shift_bounds_nat_ivl[of g 0 m m] by (simp add: mult_2)
  finally show ?thesis by (simp add: sum.distrib)
qed

lemma sub_group_reduce_lane0:
  "2 * 2 ^ k \<le> length vs \<Longrightarrow>
   sub_group_reduce (2 ^ k) vs ! 0 = (\<Sum>l = 0..<2 * 2 ^ k. vs ! l)"
proof (induction k arbitrary: vs)
  case 0
  then have "2 \<le> length vs" by simp
  then have "0 < length vs" "1 < length vs" by linarith+
  then show ?case
    by (subst sub_group_reduce.simps, subst sub_group_reduce.simps)
       (simp add: shift_group_left_def eval_nat_numeral)
next
  case (Suc k)
  let ?o = "(2::nat) ^ Suc k"
  let ?vs = "map (\<lambda>lane. vs ! lane + shift_group_left vs ?o lane) [0..<length vs]"
  have len: "2 * ?o \<le> length vs" using Suc.prems by simp
  have step: "sub_group_reduce ?o vs = sub_group_reduce (2 ^ k) ?vs"
    by (subst sub_group_reduce.simps) simp
  have "sub_group_reduce (2 ^ k) ?vs ! 0 = (\<Sum>l = 0..<2 * 2 ^ k. ?vs ! l)"
    by (rule Suc.IH) (use len in simp)
  also have "\<dots> = (\<Sum>l = 0..<?o. vs ! l + vs ! (l + ?o))"
  proof (rule sum.cong)
    fix l assume "l \<in> {0..<?o}"
    then have "l < ?o" by simp
    with len have "l < length vs" "l + ?o < length vs" by linarith+
    then show "?vs ! l = vs ! l + vs ! (l + ?o)"
      by (simp add: shift_group_left_def)
  qed simp
  also have "\<dots> = (\<Sum>l = 0..<2 * ?o. vs ! l)"
    by (rule sum_split_double[symmetric])
  finally show ?case using step by simp
qed

lemma sub_group_reduce_32:
  assumes "length vs = 32"
  shows "sub_group_reduce (length vs div 2) vs ! 0 = sum_list vs"
proof -
  have "sub_group_reduce (2 ^ 4) vs ! 0 = (\<Sum>l = 0..<2 * 2 ^ 4. vs ! l)"
    by (rule sub_group_reduce_lane0) (simp add: assms)
  then show ?thesis by (simp add: assms sum_list_sum_nth)
qed

lemma tile_reduce_eq:
  "length vs = tile \<Longrightarrow> tile_reduce tile offset vs = sub_group_reduce offset vs"
proof (induction tile offset vs rule: tile_reduce.induct)
  case (1 tile offset vs)
  show ?case
  proof (cases "0 < offset")
    case True
    have same: "map (\<lambda>lane. vs ! lane + shift_sub_group_left vs offset tile lane) [0..<length vs]
              = map (\<lambda>lane. vs ! lane + shift_group_left vs offset lane) [0..<length vs]"
      using "1.prems" by (auto simp: shift_sub_group_left_def shift_group_left_def Let_def)
    have "tile_reduce tile offset vs
            = tile_reduce tile (offset div 2)
                (map (\<lambda>lane. vs ! lane + shift_sub_group_left vs offset tile lane)
                   [0..<length vs])"
      using True by (subst tile_reduce.simps) simp
    also have "\<dots> = sub_group_reduce (offset div 2)
                (map (\<lambda>lane. vs ! lane + shift_sub_group_left vs offset tile lane)
                   [0..<length vs])"
      by (rule "1.IH") (use True "1.prems" in simp_all)
    also have "\<dots> = sub_group_reduce offset vs"
      using True by (subst (2) sub_group_reduce.simps) (simp add: same)
    finally show ?thesis .
  next
    case False
    then show ?thesis
      by (subst tile_reduce.simps, subst sub_group_reduce.simps) simp
  qed
qed

lemma tile_reduce_8:
  assumes "length vs = 8"
  shows "tile_reduce ROWS_PER_CTA (ROWS_PER_CTA div 2) vs ! 0 = sum_list vs"
proof -
  have "sub_group_reduce (2 ^ 2) vs ! 0 = (\<Sum>l = 0..<2 * 2 ^ 2. vs ! l)"
    by (rule sub_group_reduce_lane0) (simp add: assms)
  then show ?thesis
    by (simp add: tile_reduce_eq ROWS_PER_CTA_def assms sum_list_sum_nth)
qed

lemma sum_blocks:
  "(\<Sum>w = 0..<(m::nat). \<Sum>l = 0..<(c::nat). (g (c * w + l) :: real)) = (\<Sum>i = 0..<c * m. g i)"
proof (induction m)
  case 0
  show ?case by simp
next
  case (Suc m)
  have "(\<Sum>i = 0..<c * Suc m. g i) = (\<Sum>i = 0..<c * m. g i) + (\<Sum>i = c * m..<c * m + c. g i)"
    using sum.atLeastLessThan_concat[of 0 "c * m" "c * m + c" g] by (simp add: add.commute)
  also have "(\<Sum>i = c * m..<c * m + c. g i) = (\<Sum>l = 0..<c. g (c * m + l))"
    using sum.shift_bounds_nat_ivl[of g 0 "c * m" c] by (simp add: add.commute)
  finally show ?case using Suc.IH by simp
qed

lemma sub_groups_multiple:
  assumes "length vs = sub_group_size * m"
  shows "sub_groups vs = map (\<lambda>w. take sub_group_size (drop (sub_group_size * w) vs)) [0..<m]"
proof -
  have "(sub_group_size * m + (sub_group_size - 1)) div sub_group_size = m"
    by (simp add: sub_group_size_def)
  then show ?thesis by (simp add: sub_groups_def assms)
qed

lemma work_group_total:
  assumes "bdim = sub_group_size * m"
  shows "(\<Sum>vs\<leftarrow>map (\<lambda>vs. sub_group_reduce (length vs div 2) vs)
                  (sub_groups (map f [0..<bdim])). vs ! 0)
         = (\<Sum>t = 0..<bdim. f t)"
proof -
  let ?p = "map f [0..<bdim]"
  have sg: "sub_groups ?p = map (\<lambda>w. take sub_group_size (drop (sub_group_size * w) ?p)) [0..<m]"
    by (rule sub_groups_multiple) (simp add: assms)
  have lane0: "sub_group_reduce (length (take sub_group_size (drop (sub_group_size * w) ?p)) div 2)
                 (take sub_group_size (drop (sub_group_size * w) ?p)) ! 0
               = (\<Sum>l = 0..<sub_group_size. f (sub_group_size * w + l))"
    if "w < m" for w
  proof -
    let ?vs = "take sub_group_size (drop (sub_group_size * w) ?p)"
    from that have "sub_group_size * w + sub_group_size \<le> sub_group_size * m"
      by (simp add: sub_group_size_def)
    then have bound: "sub_group_size * w + sub_group_size \<le> bdim" by (simp add: assms)
    then have len: "length ?vs = 32" by (simp add: sub_group_size_def)
    have "sub_group_reduce (length ?vs div 2) ?vs ! 0 = sum_list ?vs"
      by (rule sub_group_reduce_32[OF len])
    also have "\<dots> = (\<Sum>l = 0..<length ?vs. ?vs ! l)" by (rule sum_list_sum_nth)
    also have "\<dots> = (\<Sum>l = 0..<sub_group_size. f (sub_group_size * w + l))"
    proof (rule sum.cong)
      show "{0..<length ?vs} = {0..<sub_group_size}" using len by (simp add: sub_group_size_def)
    next
      fix l assume "l \<in> {0..<sub_group_size}"
      then have l: "l < sub_group_size" by simp
      with bound have "sub_group_size * w + l < bdim" by linarith
      with l show "?vs ! l = f (sub_group_size * w + l)" by simp
    qed
    finally show ?thesis .
  qed
  have "(\<Sum>vs\<leftarrow>map (\<lambda>vs. sub_group_reduce (length vs div 2) vs) (sub_groups ?p). vs ! 0)
        = (\<Sum>w\<leftarrow>[0..<m]. \<Sum>l = 0..<sub_group_size. f (sub_group_size * w + l))"
    unfolding sg map_map comp_def
    by (rule arg_cong[where f = sum_list], rule map_cong) (use lane0 in auto)
  also have "\<dots> = (\<Sum>w = 0..<m. \<Sum>l = 0..<sub_group_size. f (sub_group_size * w + l))"
    by (simp add: interv_sum_list_conv_sum_set_nat)
  also have "\<dots> = (\<Sum>t = 0..<bdim. f t)"
    by (simp add: sum_blocks assms)
  finally show ?thesis .
qed

lemma load_x_shared_threads:
  assumes "0 < bdim" "m \<le> bdim"
  shows "fold (load_x_shared n bdim dm x) [0..<m] xs j
           = (if j < n \<and> j mod bdim < m then dm (x + j) else xs j)"
  using assms(2)
proof (induction m)
  case 0
  show ?case by simp
next
  case (Suc m)
  then have m: "m < bdim" by simp
  have thread: "load_x_shared n bdim dm x m ys j
                  = (if j < n \<and> j mod bdim = m then dm (x + j) else ys j)" for ys
    using stride_residue[OF m, of j]
    by (simp add: load_x_shared_def stride_loop_upd[OF assms(1)]) argo
  from Suc have IH: "fold (load_x_shared n bdim dm x) [0..<m] xs j
           = (if j < n \<and> j mod bdim < m then dm (x + j) else xs j)" by simp
  show ?case
    by (simp only: upt_Suc_append[OF le0] fold_append comp_def fold.simps id_def thread IH)
       (auto simp: less_Suc_eq)
qed

lemma x_shared_loaded:
  assumes "0 < bdim"
  shows "fold (load_x_shared n bdim dm x) [0..<bdim] xs j
           = (if j < n then dm (x + j) else xs j)"
  using load_x_shared_threads[OF assms le_refl, of n dm x xs j] assms by simp

lemma slot_distinct:
  assumes "i \<le> r" "r < i + ROWS_PER_CTA" "r \<noteq> i"
  shows "r mod (ROWS_PER_CTA + 1) \<noteq> i mod (ROWS_PER_CTA + 1)"
proof
  assume "r mod (ROWS_PER_CTA + 1) = i mod (ROWS_PER_CTA + 1)"
  with assms(1) have "(ROWS_PER_CTA + 1) dvd (r - i)"
    by (simp add: mod_eq_dvd_iff_nat)
  moreover from assms have "0 < r - i" "r - i < ROWS_PER_CTA + 1" by simp_all
  ultimately show False using nat_dvd_not_less by blast
qed

lemma load_b_shared_threads:
  assumes "m \<le> ROWS_PER_CTA" "t < m" "t + g * ROWS_PER_CTA < n"
  shows "fold (load_b_shared n dm b g) [0..<m] bs ((t + g * ROWS_PER_CTA) mod (ROWS_PER_CTA + 1))
           = dm (b + (t + g * ROWS_PER_CTA))"
  using assms(1,2)
proof (induction m)
  case 0
  then show ?case by simp
next
  case (Suc m)
  let ?r = "t + g * ROWS_PER_CTA"
  let ?i = "m + g * ROWS_PER_CTA"
  have m: "m < ROWS_PER_CTA" using Suc.prems by simp
  have thread: "load_b_shared n dm b g m ys
                  = (if ?i < n then ys(?i mod (ROWS_PER_CTA + 1) := dm (b + ?i)) else ys)" for ys
    using m by (simp add: load_b_shared_def owned_row_loop_once)
  show ?case
  proof (cases "t = m")
    case True
    with assms(3) show ?thesis
      by (simp only: upt_Suc_append[OF le0] fold_append comp_def fold.simps id_def thread)
         simp
  next
    case False
    with Suc.prems have t: "t < m" by simp
    have IH: "fold (load_b_shared n dm b g) [0..<m] bs (?r mod (ROWS_PER_CTA + 1))
                = dm (b + ?r)"
      using Suc.IH t m by simp
    have "?r mod (ROWS_PER_CTA + 1) \<noteq> ?i mod (ROWS_PER_CTA + 1)"
      using t m slot_distinct[of ?r ?i] by simp
    then show ?thesis
      by (simp only: upt_Suc_append[OF le0] fold_append comp_def fold.simps id_def thread)
         (use IH in simp)
  qed
qed

lemma fold_idle_threads:
  assumes "\<And>t s. lo \<le> t \<Longrightarrow> f t s = s"
  shows "fold f [lo..<hi] s = s"
proof (induction hi)
  case 0
  show ?case by simp
next
  case (Suc hi)
  show ?case
  proof (cases "lo \<le> hi")
    case True
    then show ?thesis by (simp add: Suc.IH assms)
  next
    case False
    then show ?thesis by simp
  qed
qed

lemma fold_first_threads:
  assumes "c \<le> bdim" "\<And>t s. c \<le> t \<Longrightarrow> f t s = s"
  shows "fold f [0..<bdim] s = fold f [0..<c] s"
proof -
  have "[0..<bdim] = [0..<c] @ [c..<bdim]"
    using upt_add_eq_append[OF le0, of c "bdim - c"] assms(1) by simp
  then show ?thesis by (simp add: fold_idle_threads[OF assms(2)])
qed

lemma b_shared_loaded:
  assumes "ROWS_PER_CTA \<le> bdim" "g * ROWS_PER_CTA \<le> r" "r < g * ROWS_PER_CTA + ROWS_PER_CTA"
    "r < n"
  shows "fold (load_b_shared n dm b g) [0..<bdim] bs (r mod (ROWS_PER_CTA + 1)) = dm (b + r)"
proof -
  have "fold (load_b_shared n dm b g) [0..<bdim] bs
          = fold (load_b_shared n dm b g) [0..<ROWS_PER_CTA] bs"
    by (rule fold_first_threads[OF assms(1)]) (simp add: load_b_shared_def)
  moreover define t where "t = r - g * ROWS_PER_CTA"
  moreover have "r = t + g * ROWS_PER_CTA" "t < ROWS_PER_CTA"
    using assms(2,3) by (simp_all add: t_def)
  ultimately show ?thesis
    using load_b_shared_threads[OF le_refl, of t g n dm b bs] assms(4) by simp
qed

lemma fold_atomic_sub:
  "fold (\<lambda>vs bs. bs(s := bs s + - (vs ! 0))) red (bs :: cells)
     = bs(s := bs s - (\<Sum>vs\<leftarrow>red. vs ! 0))"
  by (induction red arbitrary: bs) (simp_all add: algebra_simps)

lemma row_step_eq:
  assumes "bdim = sub_group_size * m" "0 < m"
  shows "row_step n bdim fm A xs i bs
           = bs(i mod (ROWS_PER_CTA + 1) :=
                  bs (i mod (ROWS_PER_CTA + 1)) - (\<Sum>j<n. fm (A + (i * n + j)) * xs j))"
proof -
  have pos: "0 < bdim" using assms by (simp add: sub_group_size_def)
  have "(\<Sum>vs\<leftarrow>map (\<lambda>vs. sub_group_reduce (length vs div 2) vs)
                 (sub_groups (map (rowThreadSum n bdim fm A xs i) [0..<bdim])). vs ! 0)
          = (\<Sum>t = 0..<bdim. rowThreadSum n bdim fm A xs i t)"
    by (rule work_group_total[OF assms(1)])
  also have "\<dots> = (\<Sum>t<bdim. stride_loop t n bdim (\<lambda>j s. s + fm (A + (i * n + j)) * xs j) 0)"
    by (simp add: rowThreadSum_def atLeast0LessThan)
  also have "\<dots> = (\<Sum>j<n. fm (A + (i * n + j)) * xs j)"
    by (rule strided_total[OF pos])
  finally show ?thesis
    by (simp only: row_step_def Let_def fold_atomic_sub)
qed

lemma rows_loop_other:
  "bdim = sub_group_size * m \<Longrightarrow> 0 < m \<Longrightarrow>
   (\<And>r. i \<le> r \<Longrightarrow> r < i + (ROWS_PER_CTA - k) \<Longrightarrow> r mod (ROWS_PER_CTA + 1) \<noteq> s) \<Longrightarrow>
   rows_loop n bdim fm A xs k i bs s = bs s"
proof (induction n bdim fm A xs k i bs rule: rows_loop.induct)
  case (1 n bdim fm A xs k i bs)
  show ?case
  proof (cases "k < ROWS_PER_CTA \<and> i < n")
    case True
    then have "i < i + (ROWS_PER_CTA - k)" by linarith
    then have "i mod (ROWS_PER_CTA + 1) \<noteq> s" by (rule "1.prems"(3)[OF le_refl])
    then have here: "row_step n bdim fm A xs i bs s = bs s"
      by (simp add: row_step_eq[OF "1.prems"(1,2)] del: One_nat_def)
    have "rows_loop n bdim fm A xs k i bs s
            = rows_loop n bdim fm A xs (k + 1) (i + 1) (row_step n bdim fm A xs i bs) s"
      using True by (subst rows_loop.simps) simp
    also have "\<dots> = row_step n bdim fm A xs i bs s"
    proof (rule "1.IH"[OF True "1.prems"(1,2)])
      fix r assume "i + 1 \<le> r" "r < i + 1 + (ROWS_PER_CTA - (k + 1))"
      with True have "i \<le> r" "r < i + (ROWS_PER_CTA - k)" by simp_all
      then show "r mod (ROWS_PER_CTA + 1) \<noteq> s" by (rule "1.prems"(3))
    qed
    finally show ?thesis using here by simp
  next
    case False
    then show ?thesis by (subst rows_loop.simps) auto
  qed
qed

lemma rows_loop_slot:
  "bdim = sub_group_size * m \<Longrightarrow> 0 < m \<Longrightarrow>
   i \<le> r \<Longrightarrow> r < i + (ROWS_PER_CTA - k) \<Longrightarrow> r < n \<Longrightarrow>
   rows_loop n bdim fm A xs k i bs (r mod (ROWS_PER_CTA + 1))
     = bs (r mod (ROWS_PER_CTA + 1)) - (\<Sum>j<n. fm (A + (r * n + j)) * xs j)"
proof (induction n bdim fm A xs k i bs rule: rows_loop.induct)
  case (1 n bdim fm A xs k i bs)
  from "1.prems"(3,4) have k: "k < ROWS_PER_CTA" by simp
  from "1.prems"(3,5) have i: "i < n" by simp
  have T: "k < ROWS_PER_CTA \<and> i < n" using k i by simp
  let ?bs = "row_step n bdim fm A xs i bs"
  have unfold: "rows_loop n bdim fm A xs k i bs (r mod (ROWS_PER_CTA + 1))
            = rows_loop n bdim fm A xs (k + 1) (i + 1) ?bs (r mod (ROWS_PER_CTA + 1))"
    using T by (subst rows_loop.simps) simp
  show ?case
  proof (cases "r = i")
    case True
    have "rows_loop n bdim fm A xs (k + 1) (i + 1) ?bs (i mod (ROWS_PER_CTA + 1))
            = ?bs (i mod (ROWS_PER_CTA + 1))"
    proof (rule rows_loop_other[OF "1.prems"(1,2)])
      fix q assume "i + 1 \<le> q" "q < i + 1 + (ROWS_PER_CTA - (k + 1))"
      then have "i \<le> q" "q < i + ROWS_PER_CTA" "q \<noteq> i" by simp_all
      then show "q mod (ROWS_PER_CTA + 1) \<noteq> i mod (ROWS_PER_CTA + 1)"
        by (rule slot_distinct)
    qed
    then have "rows_loop n bdim fm A xs (k + 1) (i + 1) ?bs (r mod (ROWS_PER_CTA + 1))
            = bs (r mod (ROWS_PER_CTA + 1)) - (\<Sum>j<n. fm (A + (r * n + j)) * xs j)"
      unfolding True by (simp add: row_step_eq[OF "1.prems"(1,2)] del: One_nat_def)
    with unfold show ?thesis by simp
  next
    case False
    with "1.prems" k have r: "i + 1 \<le> r" "r < i + 1 + (ROWS_PER_CTA - (k + 1))" by simp_all
    from False "1.prems" have "r mod (ROWS_PER_CTA + 1) \<noteq> i mod (ROWS_PER_CTA + 1)"
      by (intro slot_distinct) simp_all
    then have "?bs (r mod (ROWS_PER_CTA + 1)) = bs (r mod (ROWS_PER_CTA + 1))"
      by (simp add: row_step_eq[OF "1.prems"(1,2)] del: One_nat_def)
    with "1.IH"[OF T "1.prems"(1,2) r "1.prems"(5)] show ?thesis
      unfolding unfold by simp
  qed
qed

subsection \<open>One work-group of \<open>JacobiMethod\<close>\<close>

lemma update_threads:
  fixes dxv :: "nat \<Rightarrow> real"
  assumes "m \<le> ROWS_PER_CTA"
    and dxv: "\<And>i. dxv i = bs (i mod (ROWS_PER_CTA + 1)) / fm (A + (i * n + i))"
  shows "fold (update_thread n fm A x_new xs bs g) [0..<m] (dm, [])
         = ((\<lambda>a. if x_new + g * ROWS_PER_CTA \<le> a \<and> a < x_new + min n (g * ROWS_PER_CTA + m)
                  then xs (a - x_new) + dxv (a - x_new) else dm a),
            map (\<lambda>t. if t + g * ROWS_PER_CTA < n then \<bar>dxv (t + g * ROWS_PER_CTA)\<bar> else 0)
              [0..<m])"
  using assms(1)
proof (induction m)
  case 0
  show ?case by (auto simp: fun_eq_iff min_def)
next
  case (Suc m)
  let ?i = "m + g * ROWS_PER_CTA"
  have m: "m < ROWS_PER_CTA" using Suc.prems by simp
  have thread: "update_thread n fm A x_new xs bs g m (D, T)
                  = (if ?i < n then D(x_new + ?i := xs ?i + dxv ?i) else D,
                     T @ [if ?i < n then \<bar>dxv ?i\<bar> else 0])" for D T
    using m by (simp add: update_thread_def owned_row_loop_once update_row_def Let_def dxv
                     del: One_nat_def)
  have IH: "fold (update_thread n fm A x_new xs bs g) [0..<m] (dm, [])
         = ((\<lambda>a. if x_new + g * ROWS_PER_CTA \<le> a \<and> a < x_new + min n (g * ROWS_PER_CTA + m)
                  then xs (a - x_new) + dxv (a - x_new) else dm a),
            map (\<lambda>t. if t + g * ROWS_PER_CTA < n then \<bar>dxv (t + g * ROWS_PER_CTA)\<bar> else 0)
              [0..<m])"
    using Suc by simp
  show ?case
    unfolding upt_Suc_append[OF le0] fold_append comp_def IH fold.simps id_def thread
    by (auto simp: fun_eq_iff min_def add.commute)
qed

lemma owned_sum:
  "(\<Sum>t = 0..<ROWS_PER_CTA. if t + g * ROWS_PER_CTA < n then (f (t + g * ROWS_PER_CTA) :: real) else 0)
     = (\<Sum>i\<in>owned_rows n g. f i)"
proof -
  have "(\<Sum>t = 0..<ROWS_PER_CTA. if t + g * ROWS_PER_CTA < n then f (t + g * ROWS_PER_CTA) else 0)
        = (\<Sum>i = g * ROWS_PER_CTA..<g * ROWS_PER_CTA + ROWS_PER_CTA. if i < n then f i else 0)"
    using sum.shift_bounds_nat_ivl[of "\<lambda>i. if i < n then f i else 0" 0 "g * ROWS_PER_CTA" ROWS_PER_CTA]
    by (simp add: add.commute)
  also have "\<dots> = (\<Sum>i\<in>{g * ROWS_PER_CTA..<g * ROWS_PER_CTA + ROWS_PER_CTA} \<inter> {i. i < n}. f i)"
    by (simp add: sum.inter_restrict)
  also have "{g * ROWS_PER_CTA..<g * ROWS_PER_CTA + ROWS_PER_CTA} \<inter> {i. i < n} = owned_rows n g"
    by (auto simp: owned_rows_def)
  finally show ?thesis .
qed

lemma JacobiMethod_effect:
  assumes "bdim = sub_group_size * m" "0 < m"
  shows "JacobiMethod n A b conv_threshold x x_new sum_ptr bdim g xs0 bs0 h
         = h\<lparr>dmem := (rows_written n A b x x_new g h)
                (sum_ptr := rows_written n A b x x_new g h sum_ptr
                            + (\<Sum>i\<in>owned_rows n g. \<bar>jacobi_dx n A b x h i\<bar>))\<rparr>"
proof -
  have pos: "0 < bdim" and wide: "ROWS_PER_CTA \<le> bdim"
    using assms by (simp_all add: sub_group_size_def ROWS_PER_CTA_def)
  define xs where "xs = fold (load_x_shared n bdim (dmem h) x) [0..<bdim] xs0"
  define bs1 where "bs1 = fold (load_b_shared n (dmem h) b g) [0..<bdim] bs0"
  define bs where "bs = rows_loop n bdim (fmem h) A xs 0 (g * ROWS_PER_CTA) bs1"
  define dxv where "dxv i = bs (i mod (ROWS_PER_CTA + 1)) / fmem h (A + (i * n + i))" for i
  have xs: "xs j = dmem h (x + j)" if "j < n" for j
    using that by (simp add: xs_def x_shared_loaded[OF pos])
  have dot: "(\<Sum>j<n. fmem h (A + (i * n + j)) * xs j) = row_dot n A x h i" for i
    unfolding row_dot_def by (rule sum.cong) (simp_all add: xs)
  have dx: "dxv i = jacobi_dx n A b x h i" if "i \<in> owned_rows n g" for i
  proof -
    from that have r: "g * ROWS_PER_CTA \<le> i" "i < g * ROWS_PER_CTA + ROWS_PER_CTA" "i < n"
      by (simp_all add: owned_rows_def)
    have "bs (i mod (ROWS_PER_CTA + 1)) = bs1 (i mod (ROWS_PER_CTA + 1)) - row_dot n A x h i"
      unfolding bs_def using rows_loop_slot[OF assms r(1) _ r(3), of 0 "fmem h" A xs bs1] r(2)
      by (simp add: dot del: One_nat_def)
    also have "bs1 (i mod (ROWS_PER_CTA + 1)) = dmem h (b + i)"
      unfolding bs1_def by (rule b_shared_loaded[OF wide r])
    finally show ?thesis by (simp add: dxv_def jacobi_dx_def)
  qed
  have st: "fold (update_thread n (fmem h) A x_new xs bs g) [0..<bdim] (dmem h, [])
            = (rows_written n A b x x_new g h,
               map (\<lambda>t. if t + g * ROWS_PER_CTA < n then \<bar>dxv (t + g * ROWS_PER_CTA)\<bar> else 0)
                 [0..<ROWS_PER_CTA])"
  proof -
    have "fold (update_thread n (fmem h) A x_new xs bs g) [0..<bdim] (dmem h, [])
          = fold (update_thread n (fmem h) A x_new xs bs g) [0..<ROWS_PER_CTA] (dmem h, [])"
      by (rule fold_first_threads[OF wide]) (simp add: update_thread_def)
    also have "\<dots> = ((\<lambda>a. if x_new + g * ROWS_PER_CTA \<le> a
                              \<and> a < x_new + min n (g * ROWS_PER_CTA + ROWS_PER_CTA)
                            then xs (a - x_new) + dxv (a - x_new) else dmem h a),
               map (\<lambda>t. if t + g * ROWS_PER_CTA < n then \<bar>dxv (t + g * ROWS_PER_CTA)\<bar> else 0)
                 [0..<ROWS_PER_CTA])"
      by (rule update_threads[OF le_refl]) (simp add: dxv_def)
    also have "(\<lambda>a. if x_new + g * ROWS_PER_CTA \<le> a
                              \<and> a < x_new + min n (g * ROWS_PER_CTA + ROWS_PER_CTA)
                            then xs (a - x_new) + dxv (a - x_new) else dmem h a)
               = rows_written n A b x x_new g h"
    proof (rule ext)
      fix a
      show "(if x_new + g * ROWS_PER_CTA \<le> a \<and> a < x_new + min n (g * ROWS_PER_CTA + ROWS_PER_CTA)
             then xs (a - x_new) + dxv (a - x_new) else dmem h a)
            = rows_written n A b x x_new g h a"
      proof (cases "x_new \<le> a \<and> a - x_new \<in> owned_rows n g")
        case True
        then have "x_new + g * ROWS_PER_CTA \<le> a \<and> a < x_new + min n (g * ROWS_PER_CTA + ROWS_PER_CTA)"
          by (auto simp: owned_rows_def)
        moreover from True have "a - x_new < n" by (simp add: owned_rows_def)
        ultimately show ?thesis using True by (simp add: rows_written_def xs dx)
      next
        case False
        then have "\<not> (x_new + g * ROWS_PER_CTA \<le> a \<and> a < x_new + min n (g * ROWS_PER_CTA + ROWS_PER_CTA))"
          by (auto simp: owned_rows_def)
        then show ?thesis using False unfolding rows_written_def by argo
      qed
    qed
    finally show ?thesis .
  qed
  have total: "tile_reduce ROWS_PER_CTA (ROWS_PER_CTA div 2)
                 (map (\<lambda>t. if t + g * ROWS_PER_CTA < n then \<bar>dxv (t + g * ROWS_PER_CTA)\<bar> else 0)
                    [0..<ROWS_PER_CTA]) ! 0
               = (\<Sum>i\<in>owned_rows n g. \<bar>jacobi_dx n A b x h i\<bar>)"
  proof -
    let ?ts = "map (\<lambda>t. if t + g * ROWS_PER_CTA < n then \<bar>dxv (t + g * ROWS_PER_CTA)\<bar> else 0)
                 [0..<ROWS_PER_CTA]"
    have "length ?ts = 8" by (simp add: ROWS_PER_CTA_def)
    then have "tile_reduce ROWS_PER_CTA (ROWS_PER_CTA div 2) ?ts ! 0 = sum_list ?ts"
      by (rule tile_reduce_8)
    also have "\<dots> = (\<Sum>t = 0..<ROWS_PER_CTA. if t + g * ROWS_PER_CTA < n
                                            then \<bar>dxv (t + g * ROWS_PER_CTA)\<bar> else 0)"
      by (simp add: interv_sum_list_conv_sum_set_nat)
    also have "\<dots> = (\<Sum>i\<in>owned_rows n g. \<bar>dxv i\<bar>)" by (rule owned_sum)
    also have "\<dots> = (\<Sum>i\<in>owned_rows n g. \<bar>jacobi_dx n A b x h i\<bar>)"
      by (rule sum.cong) (simp_all add: dx)
    finally show ?thesis .
  qed
  show ?thesis
    unfolding JacobiMethod_def Let_def
    unfolding xs_def[symmetric] bs1_def[symmetric]
    unfolding bs_def[symmetric] st fst_conv snd_conv total ..
qed

subsection \<open>A launch of \<open>JacobiMethod\<close>\<close>

lemma jacobi_dx_cong:
  assumes "fmem h' = fmem h" "\<And>j. j < n \<Longrightarrow> dmem h' (x + j) = dmem h (x + j)"
    "dmem h' (b + i) = dmem h (b + i)"
  shows "jacobi_dx n A b x h' i = jacobi_dx n A b x h i"
proof -
  have "row_dot n A x h' i = row_dot n A x h i"
    unfolding row_dot_def by (rule sum.cong) (simp_all add: assms)
  then show ?thesis by (simp add: jacobi_dx_def assms)
qed

lemma owned_rows_extend:
  "{..<min n (G * ROWS_PER_CTA)} \<union> owned_rows n G = {..<min n (Suc G * ROWS_PER_CTA)}"
  "{..<min n (G * ROWS_PER_CTA)} \<inter> owned_rows n G = {}"
  by (auto simp: owned_rows_def)

lemma launch_JacobiMethod_groups:
  assumes cfg: "nthreads = sub_group_size * m" "0 < m"
    and sep: "apart x_new x n" "apart x_new b n" "outside sum_ptr x_new n"
      "outside sum_ptr x n" "outside sum_ptr b n"
  shows "fold (\<lambda>g. JacobiMethod n A b conv_threshold x x_new sum_ptr nthreads g xs0 bs0) [0..<G] h
         = h\<lparr>dmem := (\<lambda>a. if a = sum_ptr
                     then dmem h sum_ptr
                          + (\<Sum>i<min n (G * ROWS_PER_CTA). \<bar>jacobi_dx n A b x h i\<bar>)
                     else if x_new \<le> a \<and> a - x_new < min n (G * ROWS_PER_CTA)
                          then dmem h (x + (a - x_new)) + jacobi_dx n A b x h (a - x_new)
                          else dmem h a)\<rparr>"
    (is "?run G = ?part G")
proof (induction G)
  case 0
  have "(\<lambda>a. if a = sum_ptr
                     then dmem h sum_ptr
                          + (\<Sum>i<min n (0 * ROWS_PER_CTA). \<bar>jacobi_dx n A b x h i\<bar>)
                     else if x_new \<le> a \<and> a - x_new < min n (0 * ROWS_PER_CTA)
                          then dmem h (x + (a - x_new)) + jacobi_dx n A b x h (a - x_new)
                          else dmem h a) = dmem h"
    by (auto simp: fun_eq_iff)
  then show ?case by simp
next
  case (Suc G)
  let ?R = ROWS_PER_CTA
  let ?dx = "jacobi_dx n A b x h"
  define P where "P = ?part G"
  have fm: "fmem P = fmem h" by (simp add: P_def)
  have dm: "dmem P a = (if a = sum_ptr
                     then dmem h sum_ptr + (\<Sum>i<min n (G * ?R). \<bar>?dx i\<bar>)
                     else if x_new \<le> a \<and> a - x_new < min n (G * ?R)
                          then dmem h (x + (a - x_new)) + ?dx (a - x_new)
                          else dmem h a)" for a
    by (simp add: P_def)
  have xs: "dmem P (x + j) = dmem h (x + j)" if "j < n" for j
    using that sep(1,4) unfolding dm by (auto simp: apart_def outside_def)
  have bs: "dmem P (b + j) = dmem h (b + j)" if "j < n" for j
    using that sep(2,5) unfolding dm by (auto simp: apart_def outside_def)
  have dx: "jacobi_dx n A b x P i = ?dx i" if "i < n" for i
    by (rule jacobi_dx_cong) (simp_all add: xs bs fm that)
  have dx_owned: "jacobi_dx n A b x P i = ?dx i" if "i \<in> owned_rows n G" for i
    using that by (intro dx) (simp add: owned_rows_def)
  have s_out: "\<not> (x_new \<le> sum_ptr \<and> sum_ptr - x_new < n)"
    using sep(3) by (auto simp: outside_def)
  have s_own: "\<not> (x_new \<le> sum_ptr \<and> sum_ptr - x_new \<in> owned_rows n G)"
    using s_out by (auto simp: owned_rows_def)
  have total: "(\<Sum>i<min n (G * ?R). \<bar>?dx i\<bar>) + (\<Sum>i\<in>owned_rows n G. \<bar>?dx i\<bar>)
                 = (\<Sum>i<min n (Suc G * ?R). \<bar>?dx i\<bar>)"
    using sum.union_disjoint[of "{..<min n (G * ?R)}" "owned_rows n G" "\<lambda>i. \<bar>?dx i\<bar>"]
    by (simp only: owned_rows_extend finite_lessThan) (simp add: owned_rows_def)
  have "?run (Suc G) = JacobiMethod n A b conv_threshold x x_new sum_ptr nthreads G xs0 bs0 P"
    using Suc.IH by (simp add: P_def)
  also have "\<dots> = P\<lparr>dmem := (rows_written n A b x x_new G P)
                (sum_ptr := rows_written n A b x x_new G P sum_ptr
                            + (\<Sum>i\<in>owned_rows n G. \<bar>jacobi_dx n A b x P i\<bar>))\<rparr>"
    by (rule JacobiMethod_effect[OF cfg])
  also have "\<dots> = ?part (Suc G)"
  proof -
    have "(rows_written n A b x x_new G P)
                (sum_ptr := rows_written n A b x x_new G P sum_ptr
                            + (\<Sum>i\<in>owned_rows n G. \<bar>jacobi_dx n A b x P i\<bar>))
          = (\<lambda>a. if a = sum_ptr
                     then dmem h sum_ptr
                          + (\<Sum>i<min n (Suc G * ?R). \<bar>?dx i\<bar>)
                     else if x_new \<le> a \<and> a - x_new < min n (Suc G * ?R)
                          then dmem h (x + (a - x_new)) + ?dx (a - x_new)
                          else dmem h a)" (is "?l = ?r")
    proof (rule ext)
      fix a
      show "?l a = ?r a"
      proof (cases "a = sum_ptr")
        case True
        have "(\<Sum>i\<in>owned_rows n G. \<bar>jacobi_dx n A b x P i\<bar>)
                = (\<Sum>i\<in>owned_rows n G. \<bar>?dx i\<bar>)"
          by (rule sum.cong) (simp_all add: dx_owned)
        moreover have "rows_written n A b x x_new G P sum_ptr
                 = dmem h sum_ptr + (\<Sum>i<min n (G * ?R). \<bar>?dx i\<bar>)"
          by (simp add: rows_written_def s_own dm)
        ultimately show ?thesis
          using True total by simp
      next
        case False
        show ?thesis
        proof (cases "x_new \<le> a \<and> a - x_new \<in> owned_rows n G")
          case own: True
          then have lt: "a - x_new < n" "a - x_new < min n (Suc G * ?R)"
            by (simp_all add: owned_rows_def)
          from own have "rows_written n A b x x_new G P a
                  = dmem P (x + (a - x_new)) + jacobi_dx n A b x P (a - x_new)"
            by (simp add: rows_written_def)
          also have "\<dots> = dmem h (x + (a - x_new)) + ?dx (a - x_new)"
            by (simp only: xs[OF lt(1)] dx[OF lt(1)])
          finally show ?thesis using False own lt by simp
        next
          case other: False
          then have eq: "(x_new \<le> a \<and> a - x_new < min n (Suc G * ?R))
                       \<longleftrightarrow> (x_new \<le> a \<and> a - x_new < min n (G * ?R))"
            by (auto simp: owned_rows_def)
          from other have "rows_written n A b x x_new G P a = dmem P a"
            unfolding rows_written_def by argo
          then show ?thesis using False eq by (simp add: dm)
        qed
      qed
    qed
    then show ?thesis by (simp add: P_def)
  qed
  finally show ?case .
qed

lemma launch_JacobiMethod_effect:
  assumes "nthreads = sub_group_size * m" "0 < m" "n \<le> nblocks * ROWS_PER_CTA"
    and "apart x_new x n" "apart x_new b n" "outside sum_ptr x_new n"
      "outside sum_ptr x n" "outside sum_ptr b n"
  shows "launch_JacobiMethod n A b conv_threshold x x_new sum_ptr nblocks nthreads h
         = jacobi_sweep n A b x x_new sum_ptr h"
proof -
  have m: "min n (nblocks * ROWS_PER_CTA) = n" using assms(3) by simp
  show ?thesis
    unfolding launch_JacobiMethod_def jacobi_sweep_def
      launch_JacobiMethod_groups[OF assms(1,2,4-8)] m ..
qed

subsection \<open>The kernel \<open>finalError\<close> and its launch\<close>

lemma reduced_lane0:
  assumes "bdim = sub_group_size * m" "w < m"
  shows "map (\<lambda>vs. sub_group_reduce (length vs div 2) vs) (sub_groups (map f [0..<bdim])) ! w ! 0
         = (\<Sum>l = 0..<sub_group_size. f (sub_group_size * w + l))"
proof -
  let ?p = "map f [0..<bdim]"
  let ?vs = "take sub_group_size (drop (sub_group_size * w) ?p)"
  have sg: "sub_groups ?p = map (\<lambda>w. take sub_group_size (drop (sub_group_size * w) ?p)) [0..<m]"
    by (rule sub_groups_multiple) (simp add: assms)
  from assms(2) have "sub_group_size * w + sub_group_size \<le> sub_group_size * m"
    by (simp add: sub_group_size_def)
  then have bound: "sub_group_size * w + sub_group_size \<le> bdim" by (simp add: assms)
  then have len: "length ?vs = 32" by (simp add: sub_group_size_def)
  have "map (\<lambda>vs. sub_group_reduce (length vs div 2) vs) (sub_groups ?p) ! w ! 0
          = sub_group_reduce (length ?vs div 2) ?vs ! 0"
    using assms(2) by (simp add: sg)
  also have "\<dots> = sum_list ?vs"
    by (rule sub_group_reduce_32[OF len])
  also have "\<dots> = (\<Sum>l = 0..<length ?vs. ?vs ! l)" by (rule sum_list_sum_nth)
  also have "\<dots> = (\<Sum>l = 0..<sub_group_size. f (sub_group_size * w + l))"
  proof (rule sum.cong)
    show "{0..<length ?vs} = {0..<sub_group_size}" using len by (simp add: sub_group_size_def)
  next
    fix l assume "l \<in> {0..<sub_group_size}"
    then have l: "l < sub_group_size" by simp
    with bound have "sub_group_size * w + l < bdim" by linarith
    with l show "?vs ! l = f (sub_group_size * w + l)" by simp
  qed
  finally show ?thesis .
qed

lemma reduced_length:
  assumes "bdim = sub_group_size * m"
  shows "length (map (\<lambda>vs. sub_group_reduce (length vs div 2) vs)
                   (sub_groups (map f [0..<bdim]))) = m"
proof -
  have "sub_groups (map f [0..<bdim])
          = map (\<lambda>w. take sub_group_size (drop (sub_group_size * w) (map f [0..<bdim]))) [0..<m]"
    by (rule sub_groups_multiple) (simp add: assms)
  then show ?thesis by simp
qed

lemma warpSum_written:
  "fold (\<lambda>w ws. ws((sub_group_size * w) div sub_group_size := red w)) [0..<k] (ws0 :: cells) s
     = (if s < k then red s else ws0 s)"
proof (induction k)
  case 0
  show ?case by simp
next
  case (Suc k)
  have "(sub_group_size * k) div sub_group_size = k" by (simp add: sub_group_size_def)
  with Suc show ?case by (auto simp: less_Suc_eq)
qed

lemma finalError_effect:
  assumes "bdim = sub_group_size * m" "0 < m" "m \<le> sub_group_size"
  shows "finalError n x g_sum bdim ngroups g ws0 h
         = h\<lparr>dmem := (dmem h)(g_sum := dmem h g_sum
                 + (\<Sum>t = 0..<bdim. thread_error n (dmem h) x bdim ngroups g t))\<rparr>"
proof -
  let ?f = "thread_error n (dmem h) x bdim ngroups g"
  define reduced where
    "reduced = map (\<lambda>vs. sub_group_reduce (length vs div 2) vs) (sub_groups (map ?f [0..<bdim]))"
  define warpSum where
    "warpSum = fold (\<lambda>w ws. ws((sub_group_size * w) div sub_group_size := reduced ! w ! 0))
                 [0..<length reduced] ws0"
  define blockSum where
    "blockSum = map (\<lambda>t. if t < bdim div sub_group_size then warpSum t else 0) [0..<bdim]"
  have len: "length reduced = m" unfolding reduced_def by (rule reduced_length[OF assms(1)])
  have ws: "warpSum s = (if s < m then reduced ! s ! 0 else ws0 s)" for s
    unfolding warpSum_def len by (rule warpSum_written)
  have m: "bdim div sub_group_size = m" using assms(1) by (simp add: sub_group_size_def)
  have wide: "32 \<le> bdim" using assms(1,2) by (simp add: sub_group_size_def)
  have first: "take 32 blockSum = map (\<lambda>t. if t < m then reduced ! t ! 0 else 0) [0..<32]"
    unfolding blockSum_def m using wide by (simp add: take_map ws min_absorb2)
  have "sub_group_reduce (length (take 32 blockSum) div 2) (take 32 blockSum) ! 0
          = sum_list (take 32 blockSum)"
    by (rule sub_group_reduce_32) (simp add: first)
  also have "\<dots> = (\<Sum>t = 0..<32. if t < m then reduced ! t ! 0 else 0)"
    unfolding first by (simp add: interv_sum_list_conv_sum_set_nat)
  also have "\<dots> = (\<Sum>t\<in>{0..<32} \<inter> {t. t < m}. reduced ! t ! 0)"
    by (simp add: sum.inter_restrict)
  also have "{0..<32} \<inter> {t. t < m} = {0..<m}"
    using assms(3) by (auto simp: sub_group_size_def)
  also have "(\<Sum>t = 0..<m. reduced ! t ! 0)
               = (\<Sum>w = 0..<m. \<Sum>l = 0..<sub_group_size. ?f (sub_group_size * w + l))"
    by (rule sum.cong) (simp_all add: reduced_def reduced_lane0[OF assms(1)])
  also have "\<dots> = (\<Sum>t = 0..<bdim. ?f t)"
    by (simp add: sum_blocks assms(1))
  finally have total:
    "sub_group_reduce (length (take 32 blockSum) div 2) (take 32 blockSum) ! 0
       = (\<Sum>t = 0..<bdim. ?f t)" .
  show ?thesis
    unfolding finalError_def Let_def
    unfolding reduced_def[symmetric]
    unfolding warpSum_def[symmetric]
    unfolding blockSum_def[symmetric] total ..
qed

lemma thread_error_eq:
  assumes "0 < bdim * ngroups"
  shows "thread_error n dm x bdim ngroups g t
         = stride_loop (g * bdim + t) n (bdim * ngroups) (\<lambda>i s. s + \<bar>dm (x + i) - 1\<bar>) 0"
  by (simp add: thread_error_def Let_def)

lemma thread_error_cong:
  assumes "0 < bdim * ngroups" "\<And>i. i < n \<Longrightarrow> dm' (x + i) = dm (x + i)"
  shows "thread_error n dm' x bdim ngroups g t = thread_error n dm x bdim ngroups g t"
  unfolding thread_error_eq[OF assms(1)] stride_loop_sum[OF assms(1)]
  by (rule arg_cong[where f = "\<lambda>s. 0 + s"], rule sum.cong) (auto simp: assms(2))

lemma grid_error_total:
  assumes "0 < bdim" "0 < ngroups"
  shows "(\<Sum>g = 0..<ngroups. \<Sum>t = 0..<bdim. thread_error n dm x bdim ngroups g t)
         = (\<Sum>i<n. \<bar>dm (x + i) - 1\<bar>)"
proof -
  have pos: "0 < bdim * ngroups" using assms by simp
  have "(\<Sum>g = 0..<ngroups. \<Sum>t = 0..<bdim. thread_error n dm x bdim ngroups g t)
        = (\<Sum>g = 0..<ngroups. \<Sum>t = 0..<bdim.
             stride_loop (bdim * g + t) n (bdim * ngroups) (\<lambda>i s. s + \<bar>dm (x + i) - 1\<bar>) 0)"
    by (simp add: thread_error_eq[OF pos] mult.commute)
  also have "\<dots> = (\<Sum>gid = 0..<bdim * ngroups.
             stride_loop gid n (bdim * ngroups) (\<lambda>i s. s + \<bar>dm (x + i) - 1\<bar>) 0)"
    by (rule sum_blocks)
  also have "\<dots> = (\<Sum>i<n. \<bar>dm (x + i) - 1\<bar>)"
    using strided_total[OF pos, of n "\<lambda>i. \<bar>dm (x + i) - 1\<bar>"] by (simp add: atLeast0LessThan)
  finally show ?thesis .
qed

lemma launch_finalError_groups:
  assumes cfg: "nthreads = sub_group_size * m" "0 < m" "m \<le> sub_group_size"
    and pos: "0 < nblocks" and sep: "outside g_sum x n"
  shows "fold (\<lambda>g. finalError n x g_sum nthreads nblocks g ws0) [0..<G] h
         = h\<lparr>dmem := (dmem h)(g_sum := dmem h g_sum
              + (\<Sum>g = 0..<G. \<Sum>t = 0..<nthreads. thread_error n (dmem h) x nthreads nblocks g t))\<rparr>"
proof (induction G)
  case 0
  show ?case by simp
next
  case (Suc G)
  have step: "0 < nthreads * nblocks" using cfg pos by (simp add: sub_group_size_def)
  define P where "P = h\<lparr>dmem := (dmem h)(g_sum := dmem h g_sum
              + (\<Sum>g = 0..<G. \<Sum>t = 0..<nthreads. thread_error n (dmem h) x nthreads nblocks g t))\<rparr>"
  have xs: "dmem P (x + i) = dmem h (x + i)" if "i < n" for i
    using that sep by (auto simp: P_def outside_def)
  have te: "thread_error n (dmem P) x nthreads nblocks G t
              = thread_error n (dmem h) x nthreads nblocks G t" for t
    by (rule thread_error_cong[OF step]) (rule xs)
  have "fold (\<lambda>g. finalError n x g_sum nthreads nblocks g ws0) [0..<Suc G] h
          = finalError n x g_sum nthreads nblocks G ws0
              (fold (\<lambda>g. finalError n x g_sum nthreads nblocks g ws0) [0..<G] h)"
    by simp
  also have "\<dots> = finalError n x g_sum nthreads nblocks G ws0 P"
    unfolding Suc.IH P_def ..
  also have "\<dots> = P\<lparr>dmem := (dmem P)(g_sum := dmem P g_sum
                 + (\<Sum>t = 0..<nthreads. thread_error n (dmem P) x nthreads nblocks G t))\<rparr>"
    by (rule finalError_effect[OF cfg])
  also have "\<dots> = h\<lparr>dmem := (dmem h)(g_sum := dmem h g_sum
              + (\<Sum>g = 0..<Suc G. \<Sum>t = 0..<nthreads. thread_error n (dmem h) x nthreads nblocks g t))\<rparr>"
    unfolding te by (simp add: P_def add.assoc)
  finally show ?case .
qed

lemma launch_finalError_effect:
  assumes "nthreads = sub_group_size * m" "0 < m" "m \<le> sub_group_size"
    and "0 < nblocks" and "outside g_sum x n"
  shows "launch_finalError n x g_sum nblocks nthreads h
         = h\<lparr>dmem := (dmem h)(g_sum := dmem h g_sum + l1_error n x h)\<rparr>"
proof -
  have "0 < nthreads" using assms(1,2) by (simp add: sub_group_size_def)
  then have total:
    "(\<Sum>g = 0..<nblocks. \<Sum>t = 0..<nthreads. thread_error n (dmem h) x nthreads nblocks g t)
       = (\<Sum>i<n. \<bar>dmem h (x + i) - 1\<bar>)"
    using assms(4) by (rule grid_error_total)
  show ?thesis
    unfolding launch_finalError_def l1_error_def launch_finalError_groups[OF assms] total ..
qed

subsection \<open>The loop of \<open>JacobiMethodGpu\<close>\<close>

lemma loop_converges:
  assumes "int K < max_iter"
    and "residual n A b thr x x_new d_sum h0 K \<le> thr"
  shows "k \<le> K \<Longrightarrow>
    (\<And>j. k \<le> j \<Longrightarrow> j < K \<Longrightarrow> \<not> residual n A b thr x x_new d_sum h0 j \<le> thr) \<Longrightarrow>
    JacobiMethodGpu_loop n A b thr max_iter x x_new d_sum k
      (passes n A b thr x x_new d_sum k h0) s
    = \<lparr>final_memory = final_error_pass n x x_new d_sum K (passes n A b thr x x_new d_sum (Suc K) h0),
       returned = dmem (final_error_pass n x x_new d_sum K
                          (passes n A b thr x x_new d_sum (Suc K) h0)) d_sum,
       k_exit = K,
       printed = Some (K + 1, dmem (final_error_pass n x x_new d_sum K
                                      (passes n A b thr x x_new d_sum (Suc K) h0)) d_sum)\<rparr>"
proof (induction "K - k" arbitrary: k s)
  case 0
  then have k: "k = K" by simp
  show ?case
    unfolding k using assms
    by (subst JacobiMethodGpu_loop.simps) (simp add: Let_def residual_def)
next
  case (Suc d)
  then have lt: "k < K" by simp
  with assms(1) have run: "int k < max_iter" by simp
  have no: "\<not> residual n A b thr x x_new d_sum h0 k \<le> thr"
    using Suc.prems(2)[of k] lt by simp
  have "JacobiMethodGpu_loop n A b thr max_iter x x_new d_sum k
          (passes n A b thr x x_new d_sum k h0) s
        = JacobiMethodGpu_loop n A b thr max_iter x x_new d_sum (Suc k)
            (passes n A b thr x x_new d_sum (Suc k) h0)
            (residual n A b thr x x_new d_sum h0 k)"
    using run no by (subst JacobiMethodGpu_loop.simps) (simp add: Let_def residual_def)
  also have "\<dots> = \<lparr>final_memory = final_error_pass n x x_new d_sum K (passes n A b thr x x_new d_sum (Suc K) h0),
       returned = dmem (final_error_pass n x x_new d_sum K
                          (passes n A b thr x x_new d_sum (Suc K) h0)) d_sum,
       k_exit = K,
       printed = Some (K + 1, dmem (final_error_pass n x x_new d_sum K
                                      (passes n A b thr x x_new d_sum (Suc K) h0)) d_sum)\<rparr>"
  proof (rule Suc.hyps(1))
    show "d = K - Suc k" using Suc.hyps(2) by simp
    show "Suc k \<le> K" using lt by simp
    show "\<not> residual n A b thr x x_new d_sum h0 j \<le> thr" if "Suc k \<le> j" "j < K" for j
      using that Suc.prems(2)[of j] by simp
  qed
  finally show ?case .
qed

lemma loop_exhausts:
  "(\<And>j. k \<le> j \<Longrightarrow> int j < max_iter \<Longrightarrow> \<not> residual n A b thr x x_new d_sum h0 j \<le> thr) \<Longrightarrow>
    JacobiMethodGpu_loop n A b thr max_iter x x_new d_sum k
      (passes n A b thr x x_new d_sum k h0) s
    = \<lparr>final_memory = passes n A b thr x x_new d_sum (max k (nat max_iter)) h0,
       returned = (if int k < max_iter
                   then residual n A b thr x x_new d_sum h0 (nat max_iter - 1) else s),
       k_exit = max k (nat max_iter),
       printed = None\<rparr>"
proof (induction "nat max_iter - k" arbitrary: k s)
  case 0
  then have stop: "\<not> int k < max_iter" and m: "max k (nat max_iter) = k" by simp_all
  show ?case
    unfolding m using stop by (subst JacobiMethodGpu_loop.simps) simp
next
  case (Suc d)
  then have run: "int k < max_iter" by simp
  have no: "\<not> residual n A b thr x x_new d_sum h0 k \<le> thr"
    using Suc.prems[of k] run by simp
  have m: "max k (nat max_iter) = max (Suc k) (nat max_iter)" using run by simp
  have "JacobiMethodGpu_loop n A b thr max_iter x x_new d_sum k
          (passes n A b thr x x_new d_sum k h0) s
        = JacobiMethodGpu_loop n A b thr max_iter x x_new d_sum (Suc k)
            (passes n A b thr x x_new d_sum (Suc k) h0)
            (residual n A b thr x x_new d_sum h0 k)"
    using run no by (subst JacobiMethodGpu_loop.simps) (simp add: Let_def residual_def)
  also have "\<dots> = \<lparr>final_memory = passes n A b thr x x_new d_sum (max (Suc k) (nat max_iter)) h0,
       returned = (if int (Suc k) < max_iter
                   then residual n A b thr x x_new d_sum h0 (nat max_iter - 1)
                   else residual n A b thr x x_new d_sum h0 k),
       k_exit = max (Suc k) (nat max_iter),
       printed = None\<rparr>"
  proof (rule Suc.hyps(1))
    show "d = nat max_iter - Suc k" using Suc.hyps(2) by simp
    show "\<not> residual n A b thr x x_new d_sum h0 j \<le> thr" if "Suc k \<le> j" "int j < max_iter" for j
      using that Suc.prems[of j] by simp
  qed
  also have "(if int (Suc k) < max_iter
                   then residual n A b thr x x_new d_sum h0 (nat max_iter - 1)
                   else residual n A b thr x x_new d_sum h0 k)
             = residual n A b thr x x_new d_sum h0 (nat max_iter - 1)"
  proof (cases "int (Suc k) < max_iter")
    case True then show ?thesis by simp
  next
    case False
    with run have "nat max_iter - 1 = k" by simp
    with False show ?thesis by simp
  qed
  finally show ?case using run m by simp
qed

lemma driver_converges:
  assumes "int K < max_iter"
    and "\<forall>j<K. \<not> residual n A b thr x x_new d_sum h j \<le> thr"
    and "residual n A b thr x x_new d_sum h K \<le> thr"
  shows "JacobiMethodGpu n A b thr max_iter x x_new d_sum h
    = \<lparr>final_memory = final_error_pass n x x_new d_sum K (passes n A b thr x x_new d_sum (Suc K) h),
       returned = dmem (final_error_pass n x x_new d_sum K
                          (passes n A b thr x x_new d_sum (Suc K) h)) d_sum,
       k_exit = K,
       printed = Some (K + 1, dmem (final_error_pass n x x_new d_sum K
                                      (passes n A b thr x x_new d_sum (Suc K) h)) d_sum)\<rparr>"
  using loop_converges[OF assms(1,3), of 0 0] assms(2)
  by (simp add: JacobiMethodGpu_def del: passes.simps(2))

lemma driver_exhausts:
  assumes "\<forall>j. int j < max_iter \<longrightarrow> \<not> residual n A b thr x x_new d_sum h j \<le> thr"
  shows "JacobiMethodGpu n A b thr max_iter x x_new d_sum h
    = \<lparr>final_memory = passes n A b thr x x_new d_sum (nat max_iter) h,
       returned = (if 0 < max_iter
                   then residual n A b thr x x_new d_sum h (nat max_iter - 1) else 0),
       k_exit = nat max_iter,
       printed = None\<rparr>"
  using loop_exhausts[of 0 max_iter n A b thr x x_new d_sum h 0] assms
  by (simp add: JacobiMethodGpu_def del: passes.simps(2))


lemma apart_sym: "apart p q n \<longleftrightarrow> apart q p n"
  by (auto simp: apart_def)

lemma grid_covers: "n \<le> (n div ROWS_PER_CTA + 2) * ROWS_PER_CTA"
proof -
  have "n = n div 8 * 8 + n mod 8" by simp
  moreover have "n mod 8 < 8" by simp
  moreover have "(n div 8 + 2) * 8 = n div 8 * 8 + 16" by simp
  ultimately have "n \<le> (n div 8 + 2) * 8" by linarith
  then show ?thesis by (simp add: ROWS_PER_CTA_def)
qed

lemma driver_threads: "(256::nat) = sub_group_size * 8"
  by (simp add: sub_group_size_def)

lemma jacobi_pass_effect:
  assumes "separate n b x x_new d_sum"
  shows "jacobi_pass n A b thr x x_new d_sum k h
         = jacobi_sweep n A b (if even k then x else x_new) (if even k then x_new else x) d_sum
             (memset0 d_sum h)"
proof -
  from assms have s: "apart x x_new n" "apart x_new x n" "apart x b n" "apart x_new b n"
    "outside d_sum x n" "outside d_sum x_new n" "outside d_sum b n"
    using apart_sym[of x x_new n] by (simp_all add: separate_def)
  show ?thesis
  proof (cases "even k")
    case True
    then have "jacobi_pass n A b thr x x_new d_sum k h
            = launch_JacobiMethod n A b thr x x_new d_sum (n div ROWS_PER_CTA + 2) 256
                (memset0 d_sum h)"
      by (simp only: jacobi_pass_def Let_def if_True)
    also have "\<dots> = jacobi_sweep n A b x x_new d_sum (memset0 d_sum h)"
      by (rule launch_JacobiMethod_effect[OF driver_threads _ grid_covers s(2,4,6,5,7)]) simp
    finally show ?thesis using True by simp
  next
    case False
    then have "jacobi_pass n A b thr x x_new d_sum k h
            = launch_JacobiMethod n A b thr x_new x d_sum (n div ROWS_PER_CTA + 2) 256
                (memset0 d_sum h)"
      by (simp only: jacobi_pass_def Let_def if_False)
    also have "\<dots> = jacobi_sweep n A b x_new x d_sum (memset0 d_sum h)"
      by (rule launch_JacobiMethod_effect[OF driver_threads _ grid_covers s(1,3,5,6,7)]) simp
    finally show ?thesis using False by simp
  qed
qed

lemma jacobi_dx_memset0:
  assumes "outside d_sum x n" "outside d_sum b n" "i < n"
  shows "jacobi_dx n A b x (memset0 d_sum h) i = jacobi_dx n A b x h i"
  by (rule jacobi_dx_cong) (use assms in \<open>auto simp: memset0_def outside_def\<close>)

lemma residual_effect:
  assumes "separate n b x x_new d_sum"
  shows "residual n A b thr x x_new d_sum h k
         = (\<Sum>i<n. \<bar>jacobi_dx n A b (if even k then x else x_new)
                     (passes n A b thr x x_new d_sum k h) i\<bar>)"
proof -
  let ?src = "if even k then x else x_new"
  let ?h = "passes n A b thr x x_new d_sum k h"
  from assms have o: "outside d_sum ?src n" "outside d_sum b n"
    by (simp_all add: separate_def)
  have "residual n A b thr x x_new d_sum h k
          = (\<Sum>i<n. \<bar>jacobi_dx n A b ?src (memset0 d_sum ?h) i\<bar>)"
    by (simp add: residual_def jacobi_pass_effect[OF assms] jacobi_sweep_def memset0_def)
  also have "\<dots> = (\<Sum>i<n. \<bar>jacobi_dx n A b ?src ?h i\<bar>)"
    by (rule sum.cong) (simp_all add: jacobi_dx_memset0[OF o])
  finally show ?thesis .
qed

lemma final_error_pass_effect:
  assumes "outside d_sum (if even k then x_new else x) n"
  shows "final_error_pass n x x_new d_sum k h
         = h\<lparr>dmem := (dmem h)(d_sum := l1_error n (if even k then x_new else x) h)\<rparr>"
proof -
  let ?buf = "if even k then x_new else x"
  have "l1_error n ?buf (memset0 d_sum h) = l1_error n ?buf h"
    unfolding l1_error_def
    by (rule sum.cong) (use assms in \<open>auto simp: memset0_def outside_def\<close>)
  moreover have "final_error_pass n x x_new d_sum k h
          = launch_finalError n ?buf d_sum (n div 256 + 1) 256 (memset0 d_sum h)"
    by (simp add: final_error_pass_def Let_def)
  moreover have "launch_finalError n ?buf d_sum (n div 256 + 1) 256 (memset0 d_sum h)
          = (memset0 d_sum h)\<lparr>dmem := (dmem (memset0 d_sum h))
               (d_sum := dmem (memset0 d_sum h) d_sum + l1_error n ?buf (memset0 d_sum h))\<rparr>"
    by (rule launch_finalError_effect[OF driver_threads _ _ _ assms])
       (simp_all add: sub_group_size_def)
  ultimately show ?thesis by (simp add: memset0_def)
qed

subsection \<open>The example systems\<close>

lemma sum_lessThan_2: "(\<Sum>i<(2::nat). f i) = (f 0 + f (Suc 0) :: real)"
  by (simp add: lessThan_Suc numeral_2_eq_2)

lemma example_separate: "separate 2 0 10 20 30"
  by (simp add: separate_def apart_def outside_def)

lemma example_dx:
  "jacobi_dx 2 0 0 10 example_memory 0 = 5 / 4"
  "jacobi_dx 2 0 0 10 example_memory (Suc 0) = 5 / 4"
  by (simp_all add: jacobi_dx_def row_dot_def example_memory_def sum_lessThan_2)

lemma example_residual_0: "residual 2 0 0 thr 10 20 30 example_memory 0 = 5 / 2"
  by (simp add: residual_effect[OF example_separate] sum_lessThan_2 example_dx)

lemma example_pass_1:
  "dmem (jacobi_pass 2 0 0 thr 10 20 30 0 example_memory) a
     = (if a = 30 then 5 / 2 else if a = 20 \<or> a = 21 then 5 / 4 else dmem example_memory a)"
proof -
  have dx: "jacobi_dx 2 0 0 10 (memset0 30 example_memory) i = jacobi_dx 2 0 0 10 example_memory i"
    if "i < 2" for i
    by (rule jacobi_dx_memset0) (use that in \<open>simp_all add: outside_def\<close>)
  have cases: "a - 20 = 0 \<or> a - 20 = Suc 0" if "20 \<le> a" "a - 20 < 2" using that by linarith
  have x0: "dmem example_memory 10 = 0" "dmem example_memory 11 = 0" "dmem example_memory 30 = 0"
    by (simp_all add: example_memory_def)
  show ?thesis
    using cases
    by (auto simp: jacobi_pass_effect[OF example_separate] jacobi_sweep_def memset0_def
          sum_lessThan_2 dx[unfolded memset0_def] example_dx x0)
qed

lemma example_l1_error: "l1_error 2 20 (jacobi_pass 2 0 0 thr 10 20 30 0 example_memory) = 1 / 2"
  by (simp add: l1_error_def sum_lessThan_2 example_pass_1)

lemma example_converges:
  "JacobiMethodGpu 2 0 0 3 1 10 20 30 example_memory
   = \<lparr>final_memory = final_error_pass 2 10 20 30 0 (passes 2 0 0 3 10 20 30 (Suc 0) example_memory),
      returned = 1 / 2, k_exit = 0, printed = Some (1, 1 / 2)\<rparr>"
proof -
  have "dmem (final_error_pass 2 10 20 30 0 (passes 2 0 0 3 10 20 30 (Suc 0) example_memory)) 30
          = 1 / 2"
    by (simp add: final_error_pass_effect outside_def example_l1_error)
  moreover have "JacobiMethodGpu_loop 2 0 0 3 1 10 20 30 0 (passes 2 0 0 3 10 20 30 0 example_memory) 0
     = \<lparr>final_memory = final_error_pass 2 10 20 30 0 (passes 2 0 0 3 10 20 30 (Suc 0) example_memory),
       returned = dmem (final_error_pass 2 10 20 30 0
                          (passes 2 0 0 3 10 20 30 (Suc 0) example_memory)) 30,
       k_exit = 0,
       printed = Some (0 + 1, dmem (final_error_pass 2 10 20 30 0
                                      (passes 2 0 0 3 10 20 30 (Suc 0) example_memory)) 30)\<rparr>"
    by (rule loop_converges) (simp_all add: example_residual_0)
  ultimately show ?thesis by (simp add: JacobiMethodGpu_def)
qed


lemma solved_dx:
  "jacobi_dx 2 0 0 10 solved_memory 0 = 0"
  "jacobi_dx 2 0 0 10 solved_memory (Suc 0) = 0"
  by (simp_all add: jacobi_dx_def row_dot_def solved_memory_def sum_lessThan_2)

lemma solved_residual_0: "residual 2 0 0 thr 10 20 30 solved_memory 0 = 0"
  by (simp add: residual_effect[OF example_separate] sum_lessThan_2 solved_dx)

lemma solved_pass_1:
  "dmem (jacobi_pass 2 0 0 thr 10 20 30 0 solved_memory) a
     = (if a = 30 then 0 else if a = 20 \<or> a = 21 then 1 else dmem solved_memory a)"
proof -
  have dx: "jacobi_dx 2 0 0 10 (memset0 30 solved_memory) i = jacobi_dx 2 0 0 10 solved_memory i"
    if "i < 2" for i
    by (rule jacobi_dx_memset0) (use that in \<open>simp_all add: outside_def\<close>)
  have cases: "a - 20 = 0 \<or> a - 20 = Suc 0" if "20 \<le> a" "a - 20 < 2" using that by linarith
  have x0: "dmem solved_memory 10 = 1" "dmem solved_memory 11 = 1" "dmem solved_memory 30 = 0"
    by (simp_all add: solved_memory_def)
  show ?thesis
    using cases
    by (auto simp: jacobi_pass_effect[OF example_separate] jacobi_sweep_def memset0_def
          sum_lessThan_2 dx[unfolded memset0_def] solved_dx x0)
qed

lemma solved_l1_error: "l1_error 2 20 (jacobi_pass 2 0 0 thr 10 20 30 0 solved_memory) = 0"
  by (simp add: l1_error_def sum_lessThan_2 solved_pass_1)

lemma solved_converges:
  "JacobiMethodGpu 2 0 0 3 1 10 20 30 solved_memory
   = \<lparr>final_memory = final_error_pass 2 10 20 30 0 (passes 2 0 0 3 10 20 30 (Suc 0) solved_memory),
      returned = 0, k_exit = 0, printed = Some (1, 0)\<rparr>"
proof -
  have "dmem (final_error_pass 2 10 20 30 0 (passes 2 0 0 3 10 20 30 (Suc 0) solved_memory)) 30 = 0"
    by (simp add: final_error_pass_effect outside_def solved_l1_error)
  then show ?thesis
    using driver_converges[of 0 1 2 0 0 3 10 20 30 solved_memory]
    by (simp add: solved_residual_0 del: passes.simps(2))
qed


subsection \<open>What one work-group of \<open>JacobiMethod\<close> writes\<close>

lemma update_thread_frame:
  assumes "\<not> (x_new \<le> a \<and> a - x_new \<in> owned_rows n g)"
  shows "fst (update_thread n fm A x_new xs bs g t st) a = fst st a"
proof (cases "t < ROWS_PER_CTA \<and> t + g * ROWS_PER_CTA < n")
  case True
  then have "t + g * ROWS_PER_CTA \<in> owned_rows n g" by (simp add: owned_rows_def)
  with assms have "a \<noteq> x_new + (t + g * ROWS_PER_CTA)" by auto
  with True show ?thesis
    by (simp add: update_thread_def owned_row_loop_once update_row_def Let_def)
next
  case False
  then show ?thesis by (auto simp: update_thread_def owned_row_loop_once Let_def)
qed

lemma update_threads_frame:
  assumes "\<not> (x_new \<le> a \<and> a - x_new \<in> owned_rows n g)"
  shows "fst (fold (update_thread n fm A x_new xs bs g) ts st) a = fst st a"
  by (induction ts arbitrary: st) (simp_all add: update_thread_frame[OF assms])

text \<open>
  Claim C10. One work-group running \<open>JacobiMethod\<close> leaves the store of floats, which
  holds the matrix \<open>A\<close>, as it is, and changes no cell of the store of doubles other than
  the cells \<open>x_new[i]\<close> of the rows \<open>i < N_ROWS\<close> that the group owns and the accumulator
  \<open>*sum\<close>. The right-hand side \<open>b\<close> and the iterate \<open>x\<close> that the kernel reads are
  therefore never written, wherever they lie outside these cells. This holds for every
  work-group size.
\<close>

theorem C10_JacobiMethod_frame:
  "fmem (JacobiMethod n A b conv_threshold x x_new sum_ptr bdim g xs0 bs0 h) = fmem h \<and>
   (\<forall>a. a \<noteq> sum_ptr \<and> \<not> (x_new \<le> a \<and> a - x_new \<in> owned_rows n g) \<longrightarrow>
        dmem (JacobiMethod n A b conv_threshold x x_new sum_ptr bdim g xs0 bs0 h) a = dmem h a)"
  by (simp add: JacobiMethod_def Let_def update_threads_frame)

theorem C10_JacobiMethod_frame_witness:
  "fmem (JacobiMethod 2 0 0 0 10 20 30 32 0 (\<lambda>_. 0) (\<lambda>_. 0) example_memory) = fmem example_memory \<and>
   dmem (JacobiMethod 2 0 0 0 10 20 30 32 0 (\<lambda>_. 0) (\<lambda>_. 0) example_memory) 10 = 0 \<and>
   dmem (JacobiMethod 2 0 0 0 10 20 30 32 0 (\<lambda>_. 0) (\<lambda>_. 0) example_memory) 1 = 5"
  using C10_JacobiMethod_frame[of 2 0 0 0 10 20 30 32 0 "\<lambda>_. 0" "\<lambda>_. 0" example_memory]
  by (simp add: owned_rows_def ROWS_PER_CTA_def example_memory_def)

text \<open>
  Claim C1. Let a work-group made of whole sub-groups run \<open>JacobiMethod\<close>, let every
  diagonal coefficient be nonzero and let the accumulator \<open>*sum\<close> lie outside \<open>x_new\<close>.
  Then for every row \<open>i < N_ROWS\<close> that the group owns, \<open>x_new[i] = x[i] + dx\<close> with
  \<open>dx = (b[i] - \<Sum>j. A[i * N_ROWS + j] * x[j]) / A[i * N_ROWS + i]\<close>, and the accumulator has
  grown by exactly the sum of \<open>\<bar>dx\<bar>\<close> over these rows.
\<close>

theorem C1_JacobiMethod_update:
  assumes "bdim = sub_group_size * m" and "0 < m"
    and "\<forall>i<n. fmem h (A + (i * n + i)) \<noteq> 0"
    and "sum_ptr < x_new \<or> x_new + n \<le> sum_ptr"
  shows "(\<forall>i\<in>owned_rows n g.
            dmem (JacobiMethod n A b conv_threshold x x_new sum_ptr bdim g xs0 bs0 h) (x_new + i)
              = dmem h (x + i) + jacobi_dx n A b x h i) \<and>
         dmem (JacobiMethod n A b conv_threshold x x_new sum_ptr bdim g xs0 bs0 h) sum_ptr
           = dmem h sum_ptr + (\<Sum>i\<in>owned_rows n g. \<bar>jacobi_dx n A b x h i\<bar>)"
proof -
  have out: "\<not> (x_new \<le> sum_ptr \<and> sum_ptr - x_new \<in> owned_rows n g)"
    using assms(4) by (auto simp: owned_rows_def)
  have ne: "x_new + i \<noteq> sum_ptr" if "i \<in> owned_rows n g" for i
    using that assms(4) by (auto simp: owned_rows_def)
  show ?thesis
    by (simp add: JacobiMethod_effect[OF assms(1,2)] rows_written_def out ne)
qed

theorem C1_JacobiMethod_update_witness:
  "dmem (JacobiMethod 2 0 0 0 10 20 30 32 0 (\<lambda>_. 0) (\<lambda>_. 0) example_memory) 20 = 5 / 4 \<and>
   dmem (JacobiMethod 2 0 0 0 10 20 30 32 0 (\<lambda>_. 0) (\<lambda>_. 0) example_memory) 21 = 5 / 4 \<and>
   dmem (JacobiMethod 2 0 0 0 10 20 30 32 0 (\<lambda>_. 0) (\<lambda>_. 0) example_memory) 30 = 5 / 2"
proof -
  have rows: "owned_rows 2 0 = {0, Suc 0}"
    by (auto simp: owned_rows_def ROWS_PER_CTA_def)
  have dx: "jacobi_dx 2 0 0 10 example_memory 0 = 5 / 4"
           "jacobi_dx 2 0 0 10 example_memory (Suc 0) = 5 / 4"
    by (simp_all add: jacobi_dx_def row_dot_def example_memory_def lessThan_Suc eval_nat_numeral)
  have diag: "\<forall>i<2. fmem example_memory (0 + (i * 2 + i)) \<noteq> 0"
    by (simp add: example_memory_def less_Suc_eq eval_nat_numeral)
  have base: "dmem example_memory 10 = 0" "dmem example_memory 11 = 0"
    "dmem example_memory 30 = 0"
    by (simp_all add: example_memory_def)
  from C1_JacobiMethod_update[of 32 1 2 example_memory 0 30 20 0 0 0 10 "\<lambda>_. 0" "\<lambda>_. 0", OF _ _ diag]
  show ?thesis
    by (simp add: sub_group_size_def rows dx base)
qed
subsection \<open>What \<open>JacobiMethodGpu\<close> returns\<close>

text \<open>
  Claim C3 says that the driver returns the residual of the last iteration also when it
  stops by convergence. On the example system with threshold 3 the first pass leaves the
  residual \<open>5/2\<close>, the loop stops, and the value returned is \<open>1/2\<close>: the L1 distance of the
  new iterate from the all-ones vector, which \<open>finalError\<close> wrote over the accumulator.
\<close>

theorem C3_counterexample:
  "returned (JacobiMethodGpu 2 0 0 3 1 10 20 30 example_memory) = 1 / 2 \<and>
   residual 2 0 0 3 10 20 30 example_memory 0 = 5 / 2 \<and>
   returned (JacobiMethodGpu 2 0 0 3 1 10 20 30 example_memory)
     \<noteq> residual 2 0 0 3 10 20 30 example_memory 0"
  by (simp add: example_converges example_residual_0)

text \<open>
  Claim C3, amended. When the loop stops by convergence in pass \<open>K\<close>, with the accumulator
  outside the buffer that pass \<open>K\<close> wrote, the driver returns the sum of \<open>\<bar>x\<^sub>i - 1\<bar>\<close> over
  that buffer, not the residual. When no pass within \<open>max_iter\<close> converges it returns the
  residual of the last pass, and \<open>0.0\<close> if \<open>max_iter \<le> 0\<close>.
\<close>

theorem C3_returned_value:
  "(\<forall>K. int K < max_iter \<and> (\<forall>j<K. \<not> residual n A b thr x x_new d_sum h j \<le> thr)
        \<and> residual n A b thr x x_new d_sum h K \<le> thr
        \<and> outside d_sum (if even K then x_new else x) n \<longrightarrow>
      returned (JacobiMethodGpu n A b thr max_iter x x_new d_sum h)
        = l1_error n (if even K then x_new else x) (passes n A b thr x x_new d_sum (Suc K) h)) \<and>
   ((\<forall>j. int j < max_iter \<longrightarrow> \<not> residual n A b thr x x_new d_sum h j \<le> thr) \<longrightarrow>
      returned (JacobiMethodGpu n A b thr max_iter x x_new d_sum h)
        = (if 0 < max_iter then residual n A b thr x x_new d_sum h (nat max_iter - 1) else 0))"
proof (intro conjI allI impI)
  fix K
  assume a: "int K < max_iter \<and> (\<forall>j<K. \<not> residual n A b thr x x_new d_sum h j \<le> thr)
        \<and> residual n A b thr x x_new d_sum h K \<le> thr
        \<and> outside d_sum (if even K then x_new else x) n"
  then have o: "outside d_sum (if even K then x_new else x) n" by simp
  from a show "returned (JacobiMethodGpu n A b thr max_iter x x_new d_sum h)
        = l1_error n (if even K then x_new else x) (passes n A b thr x x_new d_sum (Suc K) h)"
    by (simp add: driver_converges[of K] final_error_pass_effect[OF o] del: passes.simps(2))
next
  assume "\<forall>j. int j < max_iter \<longrightarrow> \<not> residual n A b thr x x_new d_sum h j \<le> thr"
  then show "returned (JacobiMethodGpu n A b thr max_iter x x_new d_sum h)
        = (if 0 < max_iter then residual n A b thr x x_new d_sum h (nat max_iter - 1) else 0)"
    by (simp add: driver_exhausts)
qed

theorem C3_returned_value_witness:
  "returned (JacobiMethodGpu 2 0 0 3 1 10 20 30 example_memory) = 1 / 2 \<and>
   returned (JacobiMethodGpu 2 0 0 (1 / 100) 1 10 20 30 example_memory) = 5 / 2"
proof -
  have "returned (JacobiMethodGpu 2 0 0 3 1 10 20 30 example_memory)
          = l1_error 2 (if even (0::nat) then 20 else 10)
              (passes 2 0 0 3 10 20 30 (Suc 0) example_memory)"
    by (rule C3_returned_value[THEN conjunct1, rule_format])
       (simp add: example_residual_0 outside_def)
  moreover have "returned (JacobiMethodGpu 2 0 0 (1 / 100) 1 10 20 30 example_memory)
          = (if (0::int) < 1 then residual 2 0 0 (1 / 100) 10 20 30 example_memory (nat 1 - 1)
             else 0)"
    by (rule C3_returned_value[THEN conjunct2, rule_format])
       (simp add: example_residual_0)
  ultimately show ?thesis by (simp add: example_l1_error example_residual_0)
qed


text \<open>
  Claim C8. If no pass within \<open>max_iter\<close> leaves a residual at or below the threshold, the
  driver runs exactly \<open>max_iter\<close> passes (none if \<open>max_iter \<le> 0\<close>), prints nothing, signals no
  error (it is a total function returning a value), and for \<open>max_iter > 0\<close> returns the
  residual of the last pass; with separate buffers that is the sum of \<open>\<bar>dx\<bar>\<close> of that pass.
\<close>

theorem C8_no_convergence:
  assumes "\<forall>j. int j < max_iter \<longrightarrow> \<not> residual n A b thr x x_new d_sum h j \<le> thr"
  shows "k_exit (JacobiMethodGpu n A b thr max_iter x x_new d_sum h) = nat max_iter \<and>
         printed (JacobiMethodGpu n A b thr max_iter x x_new d_sum h) = None \<and>
         final_memory (JacobiMethodGpu n A b thr max_iter x x_new d_sum h)
           = passes n A b thr x x_new d_sum (nat max_iter) h \<and>
         (0 < max_iter \<longrightarrow>
            returned (JacobiMethodGpu n A b thr max_iter x x_new d_sum h)
              = residual n A b thr x x_new d_sum h (nat max_iter - 1)) \<and>
         (0 < max_iter \<and> separate n b x x_new d_sum \<longrightarrow>
            returned (JacobiMethodGpu n A b thr max_iter x x_new d_sum h)
              = (\<Sum>i<n. \<bar>jacobi_dx n A b (if even (nat max_iter - 1) then x else x_new)
                          (passes n A b thr x x_new d_sum (nat max_iter - 1) h) i\<bar>))"
  by (simp add: driver_exhausts[OF assms] residual_effect del: passes.simps(2))

theorem C8_no_convergence_witness:
  "k_exit (JacobiMethodGpu 2 0 0 (1 / 100) 1 10 20 30 example_memory) = 1 \<and>
   printed (JacobiMethodGpu 2 0 0 (1 / 100) 1 10 20 30 example_memory) = None \<and>
   returned (JacobiMethodGpu 2 0 0 (1 / 100) 1 10 20 30 example_memory) = 5 / 2"
proof -
  have "\<forall>j. int j < 1 \<longrightarrow> \<not> residual 2 0 0 (1 / 100) 10 20 30 example_memory j \<le> 1 / 100"
    by (simp add: example_residual_0)
  from C8_no_convergence[OF this] show ?thesis
    by (simp add: example_residual_0)
qed


text \<open>
  Claim C9 says that with \<open>max_iterations = 0\<close> the solver reports the residual of the
  initial guess or a sentinel for "no iteration ran". On the example system it returns
  \<open>0\<close> while the residual of the initial guess is \<open>5/2\<close>; and \<open>0\<close> tells nothing about
  whether an iteration ran, since a run of one pass from the solved system returns \<open>0\<close>
  as well.
\<close>

theorem C9_counterexample:
  "returned (JacobiMethodGpu 2 0 0 3 0 10 20 30 example_memory) = 0 \<and>
   residual 2 0 0 3 10 20 30 example_memory 0 = 5 / 2 \<and>
   returned (JacobiMethodGpu 2 0 0 3 1 10 20 30 solved_memory) = 0 \<and>
   printed (JacobiMethodGpu 2 0 0 3 1 10 20 30 solved_memory) = Some (1, 0)"
proof -
  have "returned (JacobiMethodGpu 2 0 0 3 0 10 20 30 example_memory) = 0"
    by (simp add: JacobiMethodGpu_def JacobiMethodGpu_loop.simps)
  then show ?thesis
    by (simp add: solved_converges example_residual_0)
qed


text \<open>
  Claim C9, amended. With \<open>max_iter = 0\<close> the loop body never runs: the device memory, and
  so \<open>x\<close> and \<open>x_new\<close>, are unchanged, nothing is printed, and the driver returns \<open>0.0\<close>,
  the initial value of its host variable \<open>sum\<close>.
\<close>

theorem C9_zero_iterations:
  "JacobiMethodGpu n A b thr 0 x x_new d_sum h
     = \<lparr>final_memory = h, returned = 0, k_exit = 0, printed = None\<rparr>"
  by (simp add: JacobiMethodGpu_def JacobiMethodGpu_loop.simps)

text \<open>
  Claim C5. Launched with whole sub-groups, at most 32 of them per work-group, and with the
  accumulator outside the array, \<open>finalError\<close> adds exactly the sum of \<open>\<bar>x[i] - 1\<bar>\<close> over
  \<open>i < N_ROWS\<close> to \<open>*g_sum\<close>. When the driver loop converges in pass \<open>K\<close>, the memory it
  leaves is that of \<open>finalError\<close> launched on \<open>x_new\<close> if \<open>K\<close> is even and on \<open>x\<close> if \<open>K\<close> is
  odd, the buffer that pass \<open>K\<close> wrote.
\<close>

theorem C5_finalError:
  assumes "nthreads = sub_group_size * m" and "0 < m" and "m \<le> sub_group_size"
    and "0 < nblocks" and "outside g_sum p n"
  shows "dmem (launch_finalError n p g_sum nblocks nthreads h1) g_sum
           = dmem h1 g_sum + (\<Sum>i<n. \<bar>dmem h1 (p + i) - 1\<bar>) \<and>
         (\<forall>K. int K < max_iter \<and> (\<forall>j<K. \<not> residual n A b thr x x_new d_sum h j \<le> thr)
              \<and> residual n A b thr x x_new d_sum h K \<le> thr \<longrightarrow>
            final_memory (JacobiMethodGpu n A b thr max_iter x x_new d_sum h)
              = launch_finalError n (if even K then x_new else x) d_sum (n div 256 + 1) 256
                  (memset0 d_sum (passes n A b thr x x_new d_sum (Suc K) h)))"
proof (intro conjI allI impI)
  show "dmem (launch_finalError n p g_sum nblocks nthreads h1) g_sum
           = dmem h1 g_sum + (\<Sum>i<n. \<bar>dmem h1 (p + i) - 1\<bar>)"
    by (simp add: launch_finalError_effect[OF assms] l1_error_def)
next
  fix K
  assume "int K < max_iter \<and> (\<forall>j<K. \<not> residual n A b thr x x_new d_sum h j \<le> thr)
              \<and> residual n A b thr x x_new d_sum h K \<le> thr"
  then show "final_memory (JacobiMethodGpu n A b thr max_iter x x_new d_sum h)
              = launch_finalError n (if even K then x_new else x) d_sum (n div 256 + 1) 256
                  (memset0 d_sum (passes n A b thr x x_new d_sum (Suc K) h))"
    by (simp add: driver_converges[of K] final_error_pass_def Let_def del: passes.simps(2))
qed

theorem C5_finalError_witness:
  "dmem (launch_finalError 2 10 30 1 256 example_memory) 30 = 2 \<and>
   final_memory (JacobiMethodGpu 2 0 0 3 1 10 20 30 example_memory)
     = launch_finalError 2 20 30 1 256 (memset0 30 (jacobi_pass 2 0 0 3 10 20 30 0 example_memory))"
proof -
  have cfg: "(256::nat) = sub_group_size * 8" "(0::nat) < 8" "8 \<le> sub_group_size" "(0::nat) < 1"
    "outside 30 10 2"
    by (simp_all add: sub_group_size_def outside_def)
  note inst = C5_finalError[OF cfg, where ?h1.0 = example_memory and max_iter = 1 and A = 0
      and b = 0 and thr = 3 and x = 10 and x_new = 20 and d_sum = 30 and h = example_memory]
  have "dmem (launch_finalError 2 10 30 1 256 example_memory) 30 = 2"
    using inst[THEN conjunct1] by (simp add: sum_lessThan_2 example_memory_def)
  moreover have "final_memory (JacobiMethodGpu 2 0 0 3 1 10 20 30 example_memory)
     = launch_finalError 2 (if even (0::nat) then 20 else 10) 30 (2 div 256 + 1) 256
         (memset0 30 (passes 2 0 0 3 10 20 30 (Suc 0) example_memory))"
    by (rule inst[THEN conjunct2, rule_format]) (simp add: example_residual_0)
  ultimately show ?thesis by simp
qed
subsection \<open>The graph drivers against the reference driver\<close>

lemma graph_launch_is_pass:
  "cudaGraphLaunch n
     [MemsetNode d_sum,
      KernelNode \<lparr>gridDim = n div ROWS_PER_CTA + 2, blockDim = 256, arg_A = A, arg_b = b,
                   arg_conv_threshold = thr, arg_x = (if even k then x else x_new),
                   arg_x_new = (if even k then x_new else x), arg_sum = d_sum\<rparr>,
      MemcpyNode d_sum] (h, s)
   = (jacobi_pass n A b thr x x_new d_sum k h, dmem (jacobi_pass n A b thr x x_new d_sum k h) d_sum)"
  by (simp add: cudaGraphLaunch_def jacobi_pass_def Let_def)

lemma SetParams_loop_eq:
  "SetParams_loop n thr max_iter x x_new d_sum 1
     \<lparr>gridDim = n div ROWS_PER_CTA + 2, blockDim = 256, arg_A = A, arg_b = b,
      arg_conv_threshold = thr, arg_x = x, arg_x_new = x_new, arg_sum = d_sum\<rparr>
     \<lparr>gridDim = n div ROWS_PER_CTA + 2, blockDim = 256, arg_A = A, arg_b = b,
      arg_conv_threshold = thr, arg_x = x_new, arg_x_new = x, arg_sum = d_sum\<rparr>
     k [MemsetNode d_sum, KernelNode p, MemcpyNode d_sum] h s
   = JacobiMethodGpu_loop n A b thr max_iter x x_new d_sum k h s"
proof (induction "nat (max_iter - int k)" arbitrary: k p h s)
  case 0
  then have "\<not> int k < max_iter" by simp
  then show ?case
    by (subst SetParams_loop.simps, subst JacobiMethodGpu_loop.simps) simp
next
  case (Suc d)
  then have run: "int k < max_iter" by simp
  let ?P0 = "\<lparr>gridDim = n div ROWS_PER_CTA + 2, blockDim = 256, arg_A = A, arg_b = b,
      arg_conv_threshold = thr, arg_x = x, arg_x_new = x_new, arg_sum = d_sum\<rparr>"
  let ?P1 = "\<lparr>gridDim = n div ROWS_PER_CTA + 2, blockDim = 256, arg_A = A, arg_b = b,
      arg_conv_threshold = thr, arg_x = x_new, arg_x_new = x, arg_sum = d_sum\<rparr>"
  let ?p = "\<lparr>gridDim = n div ROWS_PER_CTA + 2, blockDim = 256, arg_A = A, arg_b = b,
                   arg_conv_threshold = thr, arg_x = (if even k then x else x_new),
                   arg_x_new = (if even k then x_new else x), arg_sum = d_sum\<rparr>"
  have set: "cudaGraphExecKernelNodeSetParams [MemsetNode d_sum, KernelNode p, MemcpyNode d_sum] 1
               (if even k then ?P0 else ?P1)
             = [MemsetNode d_sum, KernelNode ?p, MemcpyNode d_sum]"
    by (simp add: cudaGraphExecKernelNodeSetParams_def)
  have IH: "SetParams_loop n thr max_iter x x_new d_sum 1 ?P0 ?P1 (k + 1)
              [MemsetNode d_sum, KernelNode ?p, MemcpyNode d_sum] h' s'
            = JacobiMethodGpu_loop n A b thr max_iter x x_new d_sum (k + 1) h' s'" for h' s'
    by (rule Suc.hyps(1)) (use Suc.hyps(2) in simp)
  show ?case
    using run
    by (subst SetParams_loop.simps, subst JacobiMethodGpu_loop.simps)
       (simp only: set Let_def graph_launch_is_pass fst_conv snd_conv IH if_True)
qed

lemma ExecUpdate_loop_eq:
  "ExecUpdate_loop n A b thr max_iter x x_new d_sum k e h s
   = JacobiMethodGpu_loop n A b thr max_iter x x_new d_sum k h s"
proof (induction "nat (max_iter - int k)" arbitrary: k e h s)
  case 0
  then have "\<not> int k < max_iter" by simp
  then show ?case
    by (subst ExecUpdate_loop.simps, subst JacobiMethodGpu_loop.simps) simp
next
  case (Suc d)
  then have run: "int k < max_iter" by simp
  let ?p = "\<lparr>gridDim = n div ROWS_PER_CTA + 2, blockDim = 256, arg_A = A, arg_b = b,
                   arg_conv_threshold = thr, arg_x = (if even k then x else x_new),
                   arg_x_new = (if even k then x_new else x), arg_sum = d_sum\<rparr>"
  let ?g = "[MemsetNode d_sum, KernelNode ?p, MemcpyNode d_sum]"
  have graph: "[MemsetNode d_sum,
                 (if even k
                  then KernelNode \<lparr>gridDim = n div ROWS_PER_CTA + 2, blockDim = 256, arg_A = A,
                         arg_b = b, arg_conv_threshold = thr, arg_x = x,
                         arg_x_new = x_new, arg_sum = d_sum\<rparr>
                  else KernelNode \<lparr>gridDim = n div ROWS_PER_CTA + 2, blockDim = 256, arg_A = A,
                         arg_b = b, arg_conv_threshold = thr, arg_x = x_new,
                         arg_x_new = x, arg_sum = d_sum\<rparr>),
                 MemcpyNode d_sum] = ?g"
    by simp
  have exec: "(case e of None \<Rightarrow> ?g
               | Some e' \<Rightarrow> (if \<not> snd (cudaGraphExecUpdate e' ?g) then ?g
                            else fst (cudaGraphExecUpdate e' ?g)))
             = ?g"
    by (cases e) (simp_all add: cudaGraphExecUpdate_def Let_def)
  have IH: "ExecUpdate_loop n A b thr max_iter x x_new d_sum (k + 1) (Some ?g) h' s'
            = JacobiMethodGpu_loop n A b thr max_iter x x_new d_sum (k + 1) h' s'" for h' s'
    by (rule Suc.hyps(1)) (use Suc.hyps(2) in simp)
  show ?case
    using run
    by (subst ExecUpdate_loop.simps, subst JacobiMethodGpu_loop.simps)
       (simp only: graph exec Let_def graph_launch_is_pass fst_conv snd_conv IH if_True)
qed


text \<open>
  Claim C7. For every \<open>A\<close>, \<open>b\<close>, threshold, \<open>max_iter\<close> and initial memory, the drivers
  \<open>JacobiMethodGpuCudaGraphExecKernelSetParams\<close> and \<open>JacobiMethodGpuCudaGraphExecUpdate\<close>
  leave the same device memory (so the same \<open>x\<close> and \<open>x_new\<close>), return the same value, stop
  at the same \<open>k\<close> and print the same as \<open>JacobiMethodGpu\<close>.
\<close>

theorem C7_graph_drivers:
  "JacobiMethodGpuCudaGraphExecKernelSetParams n A b conv_threshold max_iter x x_new d_sum h
     = JacobiMethodGpu n A b conv_threshold max_iter x x_new d_sum h \<and>
   JacobiMethodGpuCudaGraphExecUpdate n A b conv_threshold max_iter x x_new d_sum h
     = JacobiMethodGpu n A b conv_threshold max_iter x x_new d_sum h"
proof
  have "JacobiMethodGpuCudaGraphExecKernelSetParams n A b conv_threshold max_iter x x_new d_sum h
        = SetParams_loop n conv_threshold max_iter x x_new d_sum 1
            \<lparr>gridDim = n div ROWS_PER_CTA + 2, blockDim = 256, arg_A = A, arg_b = b,
             arg_conv_threshold = conv_threshold, arg_x = x, arg_x_new = x_new, arg_sum = d_sum\<rparr>
            \<lparr>gridDim = n div ROWS_PER_CTA + 2, blockDim = 256, arg_A = A, arg_b = b,
             arg_conv_threshold = conv_threshold, arg_x = x_new, arg_x_new = x, arg_sum = d_sum\<rparr>
            0 [MemsetNode d_sum,
               KernelNode \<lparr>gridDim = n div ROWS_PER_CTA + 2, blockDim = 256, arg_A = A,
                 arg_b = b, arg_conv_threshold = conv_threshold, arg_x = x, arg_x_new = x_new,
                 arg_sum = d_sum\<rparr>,
               MemcpyNode d_sum] h 0"
    by (simp add: JacobiMethodGpuCudaGraphExecKernelSetParams_def Let_def)
  also have "\<dots> = JacobiMethodGpu_loop n A b conv_threshold max_iter x x_new d_sum 0 h 0"
    by (rule SetParams_loop_eq)
  finally show "JacobiMethodGpuCudaGraphExecKernelSetParams n A b conv_threshold max_iter x x_new
                  d_sum h
                = JacobiMethodGpu n A b conv_threshold max_iter x x_new d_sum h"
    by (simp add: JacobiMethodGpu_def)
next
  show "JacobiMethodGpuCudaGraphExecUpdate n A b conv_threshold max_iter x x_new d_sum h
          = JacobiMethodGpu n A b conv_threshold max_iter x x_new d_sum h"
    by (simp add: JacobiMethodGpuCudaGraphExecUpdate_def JacobiMethodGpu_def ExecUpdate_loop_eq)
qed

section \<open>Properties of the separable convolution\<close>

subsection \<open>Loops, folds and pixels\<close>

lemma for_loop_sum:
  "for_loop lo hi (\<lambda>j acc. acc + f j) (a::'a::comm_monoid_add) = a + (\<Sum>j = lo..<hi. f j)"
proof (induction "nat (hi - lo)" arbitrary: lo a)
  case 0
  then have "\<not> lo < hi" by simp
  then show ?case by (subst for_loop.simps) simp
next
  case (Suc d)
  then have lt: "lo < hi" by linarith
  have IH: "for_loop (lo + 1) hi (\<lambda>j acc. acc + f j) (a + f lo)
              = a + f lo + (\<Sum>j = lo + 1..<hi. f j)"
    by (rule Suc.hyps(1)) (use Suc.hyps(2) in linarith)
  have "{lo..<hi} = insert lo {lo + 1..<hi}" using lt by auto
  then have "(\<Sum>j = lo..<hi. f j) = f lo + (\<Sum>j = lo + 1..<hi. f j)" by simp
  with lt IH show ?case by (subst for_loop.simps) (simp add: add.assoc)
qed

lemma for_loop_override:
  assumes "\<And>i s. lo0 \<le> i \<Longrightarrow> i < hi \<Longrightarrow> body i s = s(key i := V (key i))"
  shows "lo0 \<le> lo \<Longrightarrow>
         for_loop lo hi body s k = (if \<exists>i. lo \<le> i \<and> i < hi \<and> key i = k then V k else s k)"
proof (induction "nat (hi - lo)" arbitrary: lo s)
  case 0
  then have "\<not> lo < hi" by simp
  then show ?case by (subst for_loop.simps) auto
next
  case (Suc d)
  then have lt: "lo < hi" by linarith
  have IH: "for_loop (lo + 1) hi body (body lo s) k
              = (if \<exists>i. lo + 1 \<le> i \<and> i < hi \<and> key i = k then V k else body lo s k)"
    by (rule Suc.hyps(1)) (use Suc.hyps(2) Suc.prems in linarith)+
  have b: "body lo s = s(key lo := V (key lo))" using assms Suc.prems lt by simp
  have split: "(\<exists>i. lo \<le> i \<and> i < hi \<and> key i = k)
                 \<longleftrightarrow> key lo = k \<or> (\<exists>i. lo + 1 \<le> i \<and> i < hi \<and> key i = k)"
  proof
    assume "\<exists>i. lo \<le> i \<and> i < hi \<and> key i = k"
    then obtain i where i: "lo \<le> i" "i < hi" "key i = k" by blast
    show "key lo = k \<or> (\<exists>i. lo + 1 \<le> i \<and> i < hi \<and> key i = k)"
    proof (cases "i = lo")
      case True with i show ?thesis by simp
    next
      case False with i have "lo + 1 \<le> i" by simp
      with i show ?thesis by blast
    qed
  next
    assume "key lo = k \<or> (\<exists>i. lo + 1 \<le> i \<and> i < hi \<and> key i = k)"
    then show "\<exists>i. lo \<le> i \<and> i < hi \<and> key i = k"
    proof
      assume "key lo = k" with lt show ?thesis by blast
    next
      assume "\<exists>i. lo + 1 \<le> i \<and> i < hi \<and> key i = k"
      then obtain i where "lo + 1 \<le> i" "i < hi" "key i = k" by blast
      then have "lo \<le> i \<and> i < hi \<and> key i = k" by simp
      then show ?thesis by blast
    qed
  qed
  have "for_loop lo hi body s k = for_loop (lo + 1) hi body (body lo s) k"
    using lt by (subst for_loop.simps) simp
  also have "\<dots> = (if \<exists>i. lo + 1 \<le> i \<and> i < hi \<and> key i = k then V k else body lo s k)"
    by (rule IH)
  also have "\<dots> = (if \<exists>i. lo \<le> i \<and> i < hi \<and> key i = k then V k else s k)"
    unfolding b split by auto
  finally show ?case .
qed

lemma fold_override:
  assumes "\<And>t s. t \<in> set ts \<Longrightarrow> I s \<Longrightarrow> f t s = (\<lambda>k. if P t k then V k else s k)"
    and "\<And>t s. t \<in> set ts \<Longrightarrow> I s \<Longrightarrow> I (\<lambda>k. if P t k then V k else s k)"
    and "I s0"
  shows "fold f ts s0 = (\<lambda>k. if \<exists>t\<in>set ts. P t k then V k else s0 k) \<and> I (fold f ts s0)"
  using assms
proof (induction ts arbitrary: s0)
  case Nil
  then show ?case by simp
next
  case (Cons t ts)
  let ?s1 = "\<lambda>k. if P t k then V k else s0 k"
  have f: "f t s0 = ?s1" using Cons.prems(1)[of t s0] Cons.prems(3) by simp
  have I1: "I ?s1" using Cons.prems(2)[of t s0] Cons.prems(3) by simp
  have "fold f ts ?s1 = (\<lambda>k. if \<exists>t\<in>set ts. P t k then V k else ?s1 k) \<and> I (fold f ts ?s1)"
    by (rule Cons.IH) (use Cons.prems I1 in auto)
  then have A: "fold f ts ?s1 = (\<lambda>k. if \<exists>t\<in>set ts. P t k then V k else ?s1 k)"
    and B: "I (fold f ts ?s1)" by blast+
  have step: "fold f (t # ts) s0 = fold f ts ?s1" by (simp add: f)
  have "fold f (t # ts) s0 = (\<lambda>k. if \<exists>t\<in>set (t # ts). P t k then V k else s0 k)"
    unfolding step A by (auto simp: fun_eq_iff)
  moreover have "I (fold f (t # ts) s0)" unfolding step by (rule B)
  ultimately show ?case by blast
qed

lemma work_items_iff:
  "(y, x) \<in> set (work_items ny nx) \<longleftrightarrow> 0 \<le> y \<and> y < ny \<and> 0 \<le> x \<and> x < nx"
  by (auto simp: work_items_def)

lemma for_loop_override_fun:
  assumes "\<And>i s. lo \<le> i \<Longrightarrow> i < hi \<Longrightarrow> body i s = s(key i := V (key i))"
  shows "for_loop lo hi body s = (\<lambda>k. if \<exists>i. lo \<le> i \<and> i < hi \<and> key i = k then V k else s k)"
  by (rule ext, rule for_loop_override[where ?lo0.0 = lo]) (use assms in auto)

lemma rows_load_eq:
  assumes lx: "0 \<le> lx" "lx < 16" and gx: "0 \<le> gx" "(gx + 1) * 128 \<le> imageW"
    and y: "0 \<le> gy * 4 + ly" "gy * 4 + ly < imageH"
  shows "rows_load mem d_Src imageW imageW gx gy lx ly s
         = (\<lambda>k. if fst k = ly \<and> (\<exists>i. 0 \<le> i \<and> i < 10 \<and> snd k = lx + i * 16)
                then rows_tile mem d_Src imageW imageH gx gy k else s k)"
proof -
  let ?T = "rows_tile mem d_Src imageW imageH gx gy"
  let ?key = "\<lambda>i. (ly, lx + i * 16)"
  let ?baseX = "(gx * 8 - 1) * 16 + lx"
  let ?d = "d_Src + ((gy * 4 + ly) * imageW + ?baseX)"
  have gx': "gx * 128 + 128 \<le> imageW" using gx(2) by (simp add: algebra_simps)
  have main: "for_loop 1 (1 + 8) (\<lambda>i s. s((ly, lx + i * 16) := mem (?d + i * 16))) s
        = (\<lambda>k. if \<exists>i. 1 \<le> i \<and> i < 1 + 8 \<and> ?key i = k then ?T k else s k)" for s
  proof (rule for_loop_override_fun)
    fix i :: int and s :: tile
    assume i: "1 \<le> i" "i < 1 + 8"
    have c: "0 \<le> gx * 128 - 16 + (lx + i * 16)" "gx * 128 - 16 + (lx + i * 16) < imageW"
      using i lx gx(1) gx' by linarith+
    have "?T (?key i) = mem (?d + i * 16)"
      using c y by (simp add: rows_tile_def padded_pixel_def algebra_simps)
    then show "s((ly, lx + i * 16) := mem (?d + i * 16)) = s(?key i := ?T (?key i))" by simp
  qed
  have left: "for_loop 0 1 (\<lambda>i s. s((ly, lx + i * 16) :=
                 (if ?baseX \<ge> - i * 16 then mem (?d + i * 16) else 0))) s
        = (\<lambda>k. if \<exists>i. 0 \<le> i \<and> i < 1 \<and> ?key i = k then ?T k else s k)" for s
  proof (rule for_loop_override_fun)
    fix i :: int and s :: tile
    assume i: "0 \<le> i" "i < 1"
    then have i0: "i = 0" by simp
    have c: "gx * 128 - 16 + lx < imageW" using lx gx(1) gx' by linarith
    have "?T (?key i) = (if ?baseX \<ge> - i * 16 then mem (?d + i * 16) else 0)"
      using c y unfolding i0 by (simp add: rows_tile_def padded_pixel_def algebra_simps)
    then show "s((ly, lx + i * 16) := (if ?baseX \<ge> - i * 16 then mem (?d + i * 16) else 0))
               = s(?key i := ?T (?key i))" by simp
  qed
  have right: "for_loop (1 + 8) (1 + 8 + 1) (\<lambda>i s. s((ly, lx + i * 16) :=
                 (if imageW - ?baseX > i * 16 then mem (?d + i * 16) else 0))) s
        = (\<lambda>k. if \<exists>i. 1 + 8 \<le> i \<and> i < 1 + 8 + 1 \<and> ?key i = k then ?T k else s k)" for s
  proof (rule for_loop_override_fun)
    fix i :: int and s :: tile
    assume i: "1 + 8 \<le> i" "i < 1 + 8 + 1"
    then have i9: "i = 9" by simp
    have c: "0 \<le> gx * 128 - 16 + (lx + 9 * 16)" using lx gx(1) by linarith
    have "?T (?key i) = (if imageW - ?baseX > i * 16 then mem (?d + i * 16) else 0)"
      using c y unfolding i9 by (simp add: rows_tile_def padded_pixel_def algebra_simps)
    then show "s((ly, lx + i * 16) := (if imageW - ?baseX > i * 16 then mem (?d + i * 16) else 0))
               = s(?key i := ?T (?key i))" by simp
  qed
  have index: "((\<exists>i. 1 + 8 \<le> i \<and> i < 1 + 8 + 1 \<and> ?key i = k)
                \<or> (\<exists>i. 0 \<le> i \<and> i < 1 \<and> ?key i = k)
                \<or> (\<exists>i. 1 \<le> i \<and> i < 1 + 8 \<and> ?key i = k))
               \<longleftrightarrow> fst k = ly \<and> (\<exists>i. 0 \<le> i \<and> i < 10 \<and> snd k = lx + i * 16)" for k :: "int \<times> int"
  proof
    assume "(\<exists>i. 1 + 8 \<le> i \<and> i < 1 + 8 + 1 \<and> ?key i = k)
                \<or> (\<exists>i. 0 \<le> i \<and> i < 1 \<and> ?key i = k)
                \<or> (\<exists>i. 1 \<le> i \<and> i < 1 + 8 \<and> ?key i = k)"
    then obtain i where "0 \<le> i" "i < 10" "?key i = k" by fastforce
    then show "fst k = ly \<and> (\<exists>i. 0 \<le> i \<and> i < 10 \<and> snd k = lx + i * 16)" by auto
  next
    assume "fst k = ly \<and> (\<exists>i. 0 \<le> i \<and> i < 10 \<and> snd k = lx + i * 16)"
    then obtain i where i: "0 \<le> i" "i < 10" "?key i = k" by (cases k) auto
    consider "i = 9" | "i = 0" | "1 \<le> i \<and> i < 9" using i(1,2) by linarith
    then show "(\<exists>i. 1 + 8 \<le> i \<and> i < 1 + 8 + 1 \<and> ?key i = k)
                \<or> (\<exists>i. 0 \<le> i \<and> i < 1 \<and> ?key i = k)
                \<or> (\<exists>i. 1 \<le> i \<and> i < 1 + 8 \<and> ?key i = k)"
    proof cases
      case 1 with i(3) show ?thesis by auto
    next
      case 2 with i(3) show ?thesis by auto
    next
      case 3 with i(3) show ?thesis by auto
    qed
  qed
  have "rows_load mem d_Src imageW imageW gx gy lx ly s
        = (\<lambda>k. if (\<exists>i. 1 + 8 \<le> i \<and> i < 1 + 8 + 1 \<and> ?key i = k) then ?T k
               else if (\<exists>i. 0 \<le> i \<and> i < 1 \<and> ?key i = k) then ?T k
               else if (\<exists>i. 1 \<le> i \<and> i < 1 + 8 \<and> ?key i = k) then ?T k else s k)"
    unfolding rows_load_def Let_def ROWS_BLOCKDIM_X_def ROWS_BLOCKDIM_Y_def
      ROWS_RESULT_STEPS_def ROWS_HALO_STEPS_def
    unfolding main left right ..
  also have "\<dots> = (\<lambda>k. if fst k = ly \<and> (\<exists>i. 0 \<le> i \<and> i < 10 \<and> snd k = lx + i * 16)
                then ?T k else s k)"
  proof (rule ext)
    fix k
    show "(if (\<exists>i. 1 + 8 \<le> i \<and> i < 1 + 8 + 1 \<and> ?key i = k) then ?T k
               else if (\<exists>i. 0 \<le> i \<and> i < 1 \<and> ?key i = k) then ?T k
               else if (\<exists>i. 1 \<le> i \<and> i < 1 + 8 \<and> ?key i = k) then ?T k else s k)
          = (if fst k = ly \<and> (\<exists>i. 0 \<le> i \<and> i < 10 \<and> snd k = lx + i * 16)
                then ?T k else s k)"
      using index[of k] by (simp only: split: if_splits) argo
  qed
  finally show ?thesis .
qed

lemma pixel_of_address:
  assumes "0 \<le> x" "x < imageW"
  shows "pixel_y d_Dst imageW (d_Dst + y * imageW + x) = y"
    and "pixel_x d_Dst imageW (d_Dst + y * imageW + x) = x"
  using assms by (simp_all add: pixel_y_def pixel_x_def)

lemma rows_tile_loaded:
  assumes gx: "0 \<le> gx" "(gx + 1) * 128 \<le> imageW" and gy: "0 \<le> gy" "(gy + 1) * 4 \<le> imageH"
    and k: "0 \<le> fst k" "fst k < 4" "0 \<le> snd k" "snd k < 160"
  shows "fold (\<lambda>(ly, lx). rows_load mem d_Src imageW imageW gx gy lx ly) (work_items 4 16) s0 k
         = rows_tile mem d_Src imageW imageH gx gy k"
proof -
  let ?P = "\<lambda>t k. fst k = fst t \<and> (\<exists>i. 0 \<le> i \<and> i < 10 \<and> snd k = snd t + i * 16)"
  let ?V = "rows_tile mem d_Src imageW imageH gx gy"
  have "fold (\<lambda>(ly, lx). rows_load mem d_Src imageW imageW gx gy lx ly) (work_items 4 16) s0
          = (\<lambda>k. if \<exists>t\<in>set (work_items 4 16). ?P t k then ?V k else s0 k) \<and> True"
  proof (rule fold_override[where I = "\<lambda>_. True"])
    fix t :: "int \<times> int" and s :: tile
    assume mem: "t \<in> set (work_items 4 16)"
    obtain ly lx where t: "t = (ly, lx)" by (cases t)
    from mem have r: "0 \<le> ly" "ly < 4" "0 \<le> lx" "lx < 16"
      unfolding t work_items_iff by simp_all
    have "gy * 4 + 4 \<le> imageH" using gy(2) by (simp add: algebra_simps)
    then have "0 \<le> gy * 4 + ly" "gy * 4 + ly < imageH" using gy(1) r by linarith+
    then show "(case t of (ly, lx) \<Rightarrow> rows_load mem d_Src imageW imageW gx gy lx ly) s
                 = (\<lambda>k. if ?P t k then ?V k else s k)"
      unfolding t by (simp add: rows_load_eq[OF r(3,4) gx])
  qed simp_all
  moreover have "\<exists>t\<in>set (work_items 4 16). ?P t k"
  proof -
    let ?t = "(fst k, snd k mod 16)"
    have "?t \<in> set (work_items 4 16)" using k by (simp add: work_items_iff)
    moreover have "0 \<le> snd k div 16" "snd k div 16 < 10" using k by simp_all
    moreover have "snd k = snd k mod 16 + snd k div 16 * 16" by simp
    ultimately show ?thesis by (intro bexI[of _ ?t]) auto
  qed
  ultimately show ?thesis by simp
qed

lemma rows_store_eq:
  assumes lx: "0 \<le> lx" "lx < 16" and gx: "0 \<le> gx" "(gx + 1) * 128 \<le> imageW"
    and ly: "0 \<le> ly" "ly < 4"
    and R: "R \<le> 16"
    and tile: "\<And>k. 0 \<le> fst k \<Longrightarrow> fst k < 4 \<Longrightarrow> 0 \<le> snd k \<Longrightarrow> snd k < 160 \<Longrightarrow>
                 s_Data k = rows_tile mem0 d_Src imageW imageH gx gy k"
  shows "rows_store R c_Kernel d_Dst imageW gx gy lx ly s_Data m
         = (\<lambda>a. if \<exists>i. 1 \<le> i \<and> i < 1 + 8
                        \<and> d_Dst + ((gy * 4 + ly) * imageW + ((gx * 8 - 1) * 16 + lx)) + i * 16 = a
                then row_convolution R c_Kernel mem0 d_Src imageW imageH
                       (pixel_y d_Dst imageW a) (pixel_x d_Dst imageW a)
                else m a)"
proof -
  let ?d = "d_Dst + ((gy * 4 + ly) * imageW + ((gx * 8 - 1) * 16 + lx))"
  let ?V = "\<lambda>a. row_convolution R c_Kernel mem0 d_Src imageW imageH
                    (pixel_y d_Dst imageW a) (pixel_x d_Dst imageW a)"
  have gx': "gx * 128 + 128 \<le> imageW" using gx(2) by (simp add: algebra_simps)
  have "for_loop 1 (1 + 8)
          (\<lambda>i m. m(?d + i * 16 :=
                     for_loop (- R) (R + 1)
                       (\<lambda>j acc. acc + c_Kernel (R - j) * s_Data (ly, lx + i * 16 + j)) 0)) m
        = (\<lambda>a. if \<exists>i. 1 \<le> i \<and> i < 1 + 8 \<and> ?d + i * 16 = a then ?V a else m a)"
  proof (rule for_loop_override_fun)
    fix i :: int and m :: fcells
    assume i: "1 \<le> i" "i < 1 + 8"
    let ?x = "gx * 128 - 16 + lx + i * 16"
    have x: "0 \<le> ?x" "?x < imageW" using i lx gx(1) gx' by linarith+
    have addr: "?d + i * 16 = d_Dst + (gy * 4 + ly) * imageW + ?x" by simp
    have "for_loop (- R) (R + 1)
            (\<lambda>j acc. acc + c_Kernel (R - j) * s_Data (ly, lx + i * 16 + j)) 0
          = (\<Sum>j = - R..R. c_Kernel (R - j) * s_Data (ly, lx + i * 16 + j))"
      by (simp add: for_loop_sum atLeastLessThanPlusOne_atLeastAtMost_int)
    also have "\<dots> = (\<Sum>j = - R..R. c_Kernel (R - j)
                        * padded_pixel mem0 d_Src imageW imageH (gy * 4 + ly) (?x + j))"
    proof (rule sum.cong)
      fix j assume "j \<in> {- R..R}"
      then have j: "- 16 \<le> j" "j \<le> 16" using R by simp_all
      have "s_Data (ly, lx + i * 16 + j) = rows_tile mem0 d_Src imageW imageH gx gy (ly, lx + i * 16 + j)"
        by (rule tile) (use i j lx ly in simp_all)
      then show "c_Kernel (R - j) * s_Data (ly, lx + i * 16 + j)
                 = c_Kernel (R - j) * padded_pixel mem0 d_Src imageW imageH (gy * 4 + ly) (?x + j)"
        by (simp add: rows_tile_def algebra_simps)
    qed simp
    also have "\<dots> = ?V (?d + i * 16)"
      unfolding addr pixel_of_address[OF x] row_convolution_def ..
    finally show "m(?d + i * 16 :=
                     for_loop (- R) (R + 1)
                       (\<lambda>j acc. acc + c_Kernel (R - j) * s_Data (ly, lx + i * 16 + j)) 0)
                  = m(?d + i * 16 := ?V (?d + i * 16))" by simp
  qed
  then show ?thesis
    unfolding rows_store_def Let_def ROWS_BLOCKDIM_X_def ROWS_BLOCKDIM_Y_def
      ROWS_RESULT_STEPS_def ROWS_HALO_STEPS_def .
qed

lemma pixel_in_image:
  assumes "0 \<le> y" "y < imageH" "0 \<le> x" "x < (imageW::int)"
  shows "0 \<le> y * imageW + x" and "y * imageW + x < imageW * imageH"
proof -
  have w: "0 \<le> imageW" using assms(3,4) by simp
  then have "0 \<le> y * imageW" using assms(1) by simp
  then show "0 \<le> y * imageW + x" using assms(3) by simp
  have "(y + 1) * imageW \<le> imageH * imageW"
    by (rule mult_right_mono) (use assms(2) w in simp_all)
  then have "y * imageW + imageW \<le> imageW * imageH" by (simp add: algebra_simps)
  then show "y * imageW + x < imageW * imageH" using assms(4) by linarith
qed

lemma padded_pixel_cong:
  assumes "\<And>a. d_Src \<le> a \<Longrightarrow> a < d_Src + imageW * imageH \<Longrightarrow> s a = m a"
  shows "padded_pixel s d_Src imageW imageH y x = padded_pixel m d_Src imageW imageH y x"
proof (cases "0 \<le> x \<and> x < imageW \<and> 0 \<le> y \<and> y < imageH")
  case True
  then have "0 \<le> y * imageW + x" "y * imageW + x < imageW * imageH"
    using pixel_in_image[of y imageH x imageW] by simp_all
  then have "s (d_Src + y * imageW + x) = m (d_Src + y * imageW + x)"
    by (intro assms) simp_all
  with True show ?thesis by (simp add: padded_pixel_def)
next
  case False
  then show ?thesis unfolding padded_pixel_def by argo
qed

lemma row_convolution_cong:
  assumes "\<And>a. d_Src \<le> a \<Longrightarrow> a < d_Src + imageW * imageH \<Longrightarrow> s a = m a"
  shows "row_convolution R c_Kernel s d_Src imageW imageH y x
         = row_convolution R c_Kernel m d_Src imageW imageH y x"
  unfolding row_convolution_def
  by (rule sum.cong) (simp_all add: padded_pixel_cong[of d_Src imageW imageH s m, OF assms])

lemma rows_tile_covered:
  assumes "0 \<le> gx" "0 \<le> gy"
  shows "(\<exists>t\<in>set (work_items 4 16). \<exists>i. 1 \<le> i \<and> i < 1 + 8
            \<and> d_Dst + ((gy * 4 + fst t) * imageW + ((gx * 8 - 1) * 16 + snd t)) + i * 16 = a)
         \<longleftrightarrow> rows_in_tile d_Dst imageW (gy, gx) a"
proof
  assume "\<exists>t\<in>set (work_items 4 16). \<exists>i. 1 \<le> i \<and> i < 1 + 8
            \<and> d_Dst + ((gy * 4 + fst t) * imageW + ((gx * 8 - 1) * 16 + snd t)) + i * 16 = a"
  then obtain t i where t: "t \<in> set (work_items 4 16)" and i: "1 \<le> i" "i < 1 + 8"
    and a: "d_Dst + ((gy * 4 + fst t) * imageW + ((gx * 8 - 1) * 16 + snd t)) + i * 16 = a"
    by blast
  obtain ly lx where tt: "t = (ly, lx)" by (cases t)
  from t have r: "0 \<le> ly" "ly < 4" "0 \<le> lx" "lx < 16" unfolding tt work_items_iff by simp_all
  let ?y = "gy * 4 + ly" and ?x = "gx * 128 - 16 + lx + i * 16"
  have "gy * 4 \<le> ?y" "?y < gy * 4 + 4" "gx * 128 \<le> ?x" "?x < gx * 128 + 128"
    using r i by linarith+
  moreover have "a = d_Dst + ?y * imageW + ?x" using a unfolding tt by simp
  ultimately show "rows_in_tile d_Dst imageW (gy, gx) a"
    unfolding rows_in_tile_def fst_conv snd_conv by blast
next
  assume "rows_in_tile d_Dst imageW (gy, gx) a"
  then obtain y x where y: "gy * 4 \<le> y" "y < gy * 4 + 4"
    and x: "gx * 128 \<le> x" "x < gx * 128 + 128" and a: "a = d_Dst + y * imageW + x"
    unfolding rows_in_tile_def fst_conv snd_conv by blast
  let ?x' = "x - gx * 128"
  let ?t = "(y - gy * 4, ?x' mod 16)" and ?i = "?x' div 16 + 1"
  have x': "0 \<le> ?x'" "?x' < 128" using x by simp_all
  have "?t \<in> set (work_items 4 16)" using y by (simp add: work_items_iff)
  moreover have "1 \<le> ?i" "?i < 1 + 8" using x' by simp_all
  moreover have "?x' = ?x' mod 16 + ?x' div 16 * 16" by simp
  then have "x = gx * 128 + ?x' mod 16 + ?x' div 16 * 16" by linarith
  then have "d_Dst + ((gy * 4 + fst ?t) * imageW + ((gx * 8 - 1) * 16 + snd ?t)) + ?i * 16 = a"
    unfolding a by (simp add: algebra_simps)
  ultimately show "\<exists>t\<in>set (work_items 4 16). \<exists>i. 1 \<le> i \<and> i < 1 + 8
            \<and> d_Dst + ((gy * 4 + fst t) * imageW + ((gx * 8 - 1) * 16 + snd t)) + i * 16 = a"
    by blast
qed

lemma convolutionRowsKernel_eq:
  assumes gx: "0 \<le> gx" "(gx + 1) * 128 \<le> imageW" and gy: "0 \<le> gy" "(gy + 1) * 4 \<le> imageH"
    and R: "R \<le> 16"
  shows "convolutionRowsKernel R c_Kernel d_Dst d_Src imageW imageH imageW (gy, gx) s0 mem
         = (\<lambda>a. if rows_in_tile d_Dst imageW (gy, gx) a
                then row_convolution R c_Kernel mem d_Src imageW imageH
                       (pixel_y d_Dst imageW a) (pixel_x d_Dst imageW a)
                else mem a)"
proof -
  define s_Data where
    "s_Data = fold (\<lambda>(ly, lx). rows_load mem d_Src imageW imageW gx gy lx ly) (work_items 4 16) s0"
  let ?P = "\<lambda>t a. \<exists>i. 1 \<le> i \<and> i < 1 + 8
            \<and> d_Dst + ((gy * 4 + fst t) * imageW + ((gx * 8 - 1) * 16 + snd t)) + i * 16 = a"
  let ?V = "\<lambda>a. row_convolution R c_Kernel mem d_Src imageW imageH
                    (pixel_y d_Dst imageW a) (pixel_x d_Dst imageW a)"
  have tile: "s_Data k = rows_tile mem d_Src imageW imageH gx gy k"
    if "0 \<le> fst k" "fst k < 4" "0 \<le> snd k" "snd k < 160" for k
    unfolding s_Data_def by (rule rows_tile_loaded[OF gx gy that])
  have "fold (\<lambda>(ly, lx). rows_store R c_Kernel d_Dst imageW gx gy lx ly s_Data) (work_items 4 16) mem
          = (\<lambda>a. if \<exists>t\<in>set (work_items 4 16). ?P t a then ?V a else mem a) \<and> True"
  proof (rule fold_override[where I = "\<lambda>_. True"])
    fix t :: "int \<times> int" and m :: fcells
    assume mem: "t \<in> set (work_items 4 16)"
    obtain ly lx where t: "t = (ly, lx)" by (cases t)
    from mem have r: "0 \<le> ly" "ly < 4" "0 \<le> lx" "lx < 16"
      unfolding t work_items_iff by simp_all
    show "(case t of (ly, lx) \<Rightarrow> rows_store R c_Kernel d_Dst imageW gx gy lx ly s_Data) m
            = (\<lambda>a. if ?P t a then ?V a else m a)"
      unfolding t prod.case fst_conv snd_conv
      by (rule rows_store_eq[OF r(3,4) gx r(1,2) R tile])
  qed simp_all
  then have "fold (\<lambda>(ly, lx). rows_store R c_Kernel d_Dst imageW gx gy lx ly s_Data)
               (work_items 4 16) mem
             = (\<lambda>a. if rows_in_tile d_Dst imageW (gy, gx) a then ?V a else mem a)"
    unfolding rows_tile_covered[OF gx(1) gy(1)] by simp
  then show ?thesis
    unfolding convolutionRowsKernel_def Let_def ROWS_BLOCKDIM_X_def ROWS_BLOCKDIM_Y_def
      fst_conv snd_conv s_Data_def .
qed

lemma smod_nonneg: "0 \<le> a \<Longrightarrow> 0 < b \<Longrightarrow> a smod b = a mod (b::int)"
  by (cases "a = 0") (simp_all add: signed_modulo_int_def sgn_if)

lemma sdiv_nonneg: "0 \<le> a \<Longrightarrow> 0 < b \<Longrightarrow> a sdiv b = a div (b::int)"
  by (cases "a = 0") (simp_all add: signed_divide_int_def sgn_if)

lemma uint32_small: "0 \<le> v \<Longrightarrow> v < 2 ^ 31 \<Longrightarrow> uint32 v = v"
  by (simp add: uint32_def)

lemma div_tile:
  fixes y c :: int
  assumes "0 < c"
  shows "y div c * c \<le> y" and "y < y div c * c + c"
proof -
  have "y div c * c + y mod c = y" by simp
  moreover have "0 \<le> y mod c" "y mod c < c" using assms by simp_all
  ultimately show "y div c * c \<le> y" "y < y div c * c + c" by linarith+
qed

lemma div_less_tiles:
  fixes y c n :: int
  assumes "0 < c" "y < n" "n mod c = 0"
  shows "y div c < n div c"
proof (rule ccontr)
  assume "\<not> y div c < n div c"
  then have "n div c * c \<le> y div c * c" using assms(1) by (simp add: mult_right_mono)
  moreover have "n div c * c = n" using assms(3) by (simp add: mod_0_imp_dvd)
  moreover have "y div c * c \<le> y" using assms(1) by (rule div_tile)
  ultimately show False using assms(2) by linarith
qed

lemma div_bounds:
  fixes a c :: int
  assumes "0 \<le> a" "0 < c"
  shows "0 \<le> a div c" and "a div c \<le> a"
proof -
  show q: "0 \<le> a div c" using assms by (simp add: pos_imp_zdiv_nonneg_iff)
  have "a div c * 1 \<le> a div c * c" using q assms(2) by (intro mult_left_mono) simp_all
  moreover have "a div c * c \<le> a" using assms(2) by (rule div_tile)
  ultimately show "a div c \<le> a" by simp
qed

lemma rows_in_tile_region:
  assumes g: "0 \<le> fst g" "(fst g + 1) * 4 \<le> imageH" "0 \<le> snd g" "(snd g + 1) * 128 \<le> imageW"
    and t: "rows_in_tile d_Dst imageW g a"
  shows "d_Dst \<le> a" and "a < d_Dst + imageW * imageH"
proof -
  from t obtain y x where y: "fst g * 4 \<le> y" "y < fst g * 4 + 4"
    and x: "snd g * 128 \<le> x" "x < snd g * 128 + 128" and a: "a = d_Dst + y * imageW + x"
    unfolding rows_in_tile_def by blast
  have "fst g * 4 + 4 \<le> imageH" "snd g * 128 + 128 \<le> imageW"
    using g(2,4) by (simp_all add: algebra_simps)
  then have "0 \<le> y" "y < imageH" "0 \<le> x" "x < imageW" using g(1,3) y x by linarith+
  then have "0 \<le> y * imageW + x" "y * imageW + x < imageW * imageH"
    by (rule pixel_in_image)+
  then show "d_Dst \<le> a" "a < d_Dst + imageW * imageH" unfolding a by simp_all
qed

lemma rows_launch:
  assumes W: "0 \<le> imageW" "imageW mod 128 = 0" and H: "0 \<le> imageH" "imageH mod 4 = 0"
    and R: "R \<le> 16" and sep: "images_apart d_Dst d_Src imageW imageH"
  shows "fold (\<lambda>g. convolutionRowsKernel R c_Kernel d_Dst d_Src imageW imageH imageW g s0)
           (work_items (imageH div 4) (imageW div 128)) mem
         = (\<lambda>a. if \<exists>g\<in>set (work_items (imageH div 4) (imageW div 128)).
                       rows_in_tile d_Dst imageW g a
                then row_convolution R c_Kernel mem d_Src imageW imageH
                       (pixel_y d_Dst imageW a) (pixel_x d_Dst imageW a)
                else mem a)"
proof -
  let ?I = "\<lambda>s. \<forall>a. d_Src \<le> a \<and> a < d_Src + imageW * imageH \<longrightarrow> s a = mem a"
  let ?V = "\<lambda>a. row_convolution R c_Kernel mem d_Src imageW imageH
                    (pixel_y d_Dst imageW a) (pixel_x d_Dst imageW a)"
  let ?gs = "work_items (imageH div 4) (imageW div 128)"
  define wq hq where "wq = imageW div 128" and "hq = imageH div 4"
  have Weq: "imageW = wq * 128" using W(2) by (simp add: wq_def mod_0_imp_dvd)
  have Heq: "imageH = hq * 4" using H(2) by (simp add: hq_def mod_0_imp_dvd)
  have grp: "0 \<le> fst g \<and> (fst g + 1) * 4 \<le> imageH \<and> 0 \<le> snd g \<and> (snd g + 1) * 128 \<le> imageW"
    if "g \<in> set ?gs" for g
  proof -
    obtain gy gx where g: "g = (gy, gx)" by (cases g)
    from that have r: "0 \<le> gy" "gy < hq" "0 \<le> gx" "gx < wq"
      unfolding g work_items_iff wq_def hq_def by simp_all
    from r(2) have "(gy + 1) * 4 \<le> hq * 4" by simp
    moreover from r(4) have "(gx + 1) * 128 \<le> wq * 128" by simp
    ultimately show ?thesis using r(1,3) unfolding g Weq Heq by simp
  qed
  have "fold (\<lambda>g. convolutionRowsKernel R c_Kernel d_Dst d_Src imageW imageH imageW g s0) ?gs mem
          = (\<lambda>a. if \<exists>g\<in>set ?gs. rows_in_tile d_Dst imageW g a then ?V a else mem a)
        \<and> ?I (fold (\<lambda>g. convolutionRowsKernel R c_Kernel d_Dst d_Src imageW imageH imageW g s0)
                ?gs mem)"
  proof (rule fold_override[where I = ?I])
    fix g :: "int \<times> int" and s :: fcells
    assume g: "g \<in> set ?gs" and I: "?I s"
    obtain gy gx where gg: "g = (gy, gx)" by (cases g)
    from grp[OF g] have r: "0 \<le> gy" "(gy + 1) * 4 \<le> imageH" "0 \<le> gx" "(gx + 1) * 128 \<le> imageW"
      unfolding gg by simp_all
    have rc: "row_convolution R c_Kernel s d_Src imageW imageH y x
            = row_convolution R c_Kernel mem d_Src imageW imageH y x" for y x
      by (rule row_convolution_cong) (use I in simp)
    show "convolutionRowsKernel R c_Kernel d_Dst d_Src imageW imageH imageW g s0 s
                 = (\<lambda>a. if rows_in_tile d_Dst imageW g a then ?V a else s a)"
      unfolding gg convolutionRowsKernel_eq[OF r(3,4,1,2) R] rc ..
  next
    fix g :: "int \<times> int" and s :: fcells
    assume g: "g \<in> set ?gs" and I: "?I s"
    show "?I (\<lambda>a. if rows_in_tile d_Dst imageW g a then ?V a else s a)"
    proof (intro allI impI)
      fix a assume a: "d_Src \<le> a \<and> a < d_Src + imageW * imageH"
      have "\<not> rows_in_tile d_Dst imageW g a"
      proof
        assume "rows_in_tile d_Dst imageW g a"
        with grp[OF g] have "d_Dst \<le> a" "a < d_Dst + imageW * imageH"
          using rows_in_tile_region[of g imageH imageW d_Dst a] by simp_all
        with a sep show False unfolding images_apart_def by linarith
      qed
      with a I show "(if rows_in_tile d_Dst imageW g a then ?V a else s a) = mem a" by simp
    qed
  qed simp
  then show ?thesis by blast
qed


lemma convolutionRowsGPU_effect:
  assumes "0 \<le> imageW" and "imageW < 2 ^ 31" and "0 \<le> imageH" and "imageH < 2 ^ 31"
    and "imageW mod (ROWS_RESULT_STEPS * ROWS_BLOCKDIM_X) = 0"
    and "imageH mod ROWS_BLOCKDIM_Y = 0"
    and "R \<le> ROWS_BLOCKDIM_X * ROWS_HALO_STEPS"
    and "images_apart d_Dst d_Src imageW imageH"
  shows "case convolutionRowsGPU R c_Kernel d_Dst d_Src imageW imageH mem of
           Inl e \<Rightarrow> False
         | Inr mem' \<Rightarrow>
             (\<forall>x y. 0 \<le> x \<and> x < imageW \<and> 0 \<le> y \<and> y < imageH \<longrightarrow>
                mem' (d_Dst + y * imageW + x)
                  = (\<Sum>j = - R..R. c_Kernel (R - j)
                       * (if 0 \<le> x + j \<and> x + j < imageW
                          then mem (d_Src + y * imageW + (x + j)) else 0)))"
proof -
  have W: "imageW mod 128 = 0" and H: "imageH mod 4 = 0" and R: "R \<le> 16"
    using assms(5,6,7)
    by (simp_all add: ROWS_RESULT_STEPS_def ROWS_BLOCKDIM_X_def ROWS_BLOCKDIM_Y_def
          ROWS_HALO_STEPS_def)
  have "0 \<le> imageW div 128" "imageW div 128 < 2 ^ 31" "0 \<le> imageH div 4" "imageH div 4 < 2 ^ 31"
    using assms(1-4) div_bounds[of imageW 128] div_bounds[of imageH 4] by simp_all
  then have bx: "uint32 (imageW sdiv 128) = imageW div 128"
    and "by": "uint32 (imageH sdiv 4) = imageH div 4"
    using assms(1,3) by (simp_all add: sdiv_nonneg uint32_small)
  have run: "convolutionRowsGPU R c_Kernel d_Dst d_Src imageW imageH mem
     = Inr (fold (\<lambda>g. convolutionRowsKernel R c_Kernel d_Dst d_Src imageW imageH imageW g (\<lambda>_. 0))
              (work_items (imageH div 4) (imageW div 128)) mem)"
    using W H R assms(1,3)
    by (simp add: convolutionRowsGPU_def ROWS_RESULT_STEPS_def ROWS_BLOCKDIM_X_def
          ROWS_BLOCKDIM_Y_def ROWS_HALO_STEPS_def smod_nonneg bx "by")
  have pix: "fold (\<lambda>g. convolutionRowsKernel R c_Kernel d_Dst d_Src imageW imageH imageW g (\<lambda>_. 0))
              (work_items (imageH div 4) (imageW div 128)) mem (d_Dst + y * imageW + x)
            = (\<Sum>j = - R..R. c_Kernel (R - j)
                       * (if 0 \<le> x + j \<and> x + j < imageW
                          then mem (d_Src + y * imageW + (x + j)) else 0))"
    if x: "0 \<le> x" "x < imageW" and y: "0 \<le> y" "y < imageH" for x y
  proof -
    let ?g = "(y div 4, x div 128)"
    have "y div 4 < imageH div 4" using _ y(2) H by (rule div_less_tiles) simp
    moreover have "x div 128 < imageW div 128" using _ x(2) W by (rule div_less_tiles) simp
    moreover have "0 \<le> y div 4" "0 \<le> x div 128"
      using x(1) y(1) by (simp_all add: pos_imp_zdiv_nonneg_iff)
    ultimately have g: "?g \<in> set (work_items (imageH div 4) (imageW div 128))"
      unfolding work_items_iff by blast
    have "y div 4 * 4 \<le> y" "y < y div 4 * 4 + 4" "x div 128 * 128 \<le> x" "x < x div 128 * 128 + 128"
      by (rule div_tile, simp)+
    then have "rows_in_tile d_Dst imageW ?g (d_Dst + y * imageW + x)"
      unfolding rows_in_tile_def fst_conv snd_conv by blast
    with g have ex: "\<exists>g\<in>set (work_items (imageH div 4) (imageW div 128)).
                   rows_in_tile d_Dst imageW g (d_Dst + y * imageW + x)" by blast
    have "padded_pixel mem d_Src imageW imageH y (x + j)
            = (if 0 \<le> x + j \<and> x + j < imageW then mem (d_Src + y * imageW + (x + j)) else 0)" for j
      using y by (simp add: padded_pixel_def)
    then show ?thesis
      using ex
      by (simp add: rows_launch[OF assms(1) W assms(3) H R assms(8)] pixel_of_address[OF x]
            row_convolution_def)
  qed
  show ?thesis unfolding run by (simp add: pix)
qed


lemma sum_radius_1: "(\<Sum>j = - 1..(1::int). f j) = f (- 1) + f 0 + (f 1 :: 'a::comm_monoid_add)"
proof -
  have "{- 1..(1::int)} = {- 1, 0, 1}" by auto
  then show ?thesis by (simp add: add.assoc)
qed

lemma sum_radius_2:
  "(\<Sum>j = - 2..(2::int). f j) = f (- 2) + f (- 1) + f 0 + f 1 + (f 2 :: 'a::comm_monoid_add)"
proof -
  have "{- 2..(2::int)} = {- 2, - 1, 0, 1, 2}" by auto
  then show ?thesis by (simp add: add.assoc)
qed


subsection \<open>Column filter\<close>

lemma columns_load_eq:
  assumes lx: "0 \<le> lx" "lx < 16" and ly: "0 \<le> ly" "ly < 8"
    and gx: "0 \<le> gx" "(gx + 1) * 16 \<le> imageW"
    and gy: "0 \<le> gy" "(gy + 1) * 64 \<le> imageH"
  shows "columns_load mem d_Src imageH imageW gx gy lx ly s
         = (\<lambda>k. if fst k = lx \<and> (\<exists>i. 0 \<le> i \<and> i < 10 \<and> snd k = ly + i * 8)
                then columns_tile mem d_Src imageW imageH gx gy k else s k)"
proof -
  let ?T = "columns_tile mem d_Src imageW imageH gx gy"
  let ?key = "\<lambda>i. (lx, ly + i * 8)"
  let ?baseY = "(gy * 8 - 1) * 8 + ly"
  let ?d = "d_Src + (?baseY * imageW + (gx * 16 + lx))"
  have gx': "gx * 16 + 16 \<le> imageW" using gx(2) by (simp add: algebra_simps)
  have gy': "gy * 64 + 64 \<le> imageH" using gy(2) by (simp add: algebra_simps)
  have x: "0 \<le> gx * 16 + lx" "gx * 16 + lx < imageW" using lx gx(1) gx' by linarith+
  have addr: "?d + i * 8 * imageW = d_Src + (gy * 64 - 8 + (ly + i * 8)) * imageW + (gx * 16 + lx)"
    for i by (simp add: algebra_simps)
  have main: "for_loop 1 (1 + 8) (\<lambda>i s. s((lx, ly + i * 8) := mem (?d + i * 8 * imageW))) s
        = (\<lambda>k. if \<exists>i. 1 \<le> i \<and> i < 1 + 8 \<and> ?key i = k then ?T k else s k)" for s
  proof (rule for_loop_override_fun)
    fix i :: int and s :: tile
    assume i: "1 \<le> i" "i < 1 + 8"
    have c: "0 \<le> gy * 64 - 8 + (ly + i * 8)" "gy * 64 - 8 + (ly + i * 8) < imageH"
      using i ly gy(1) gy' by linarith+
    have "?T (?key i) = mem (?d + i * 8 * imageW)"
      unfolding addr using c x by (simp add: columns_tile_def padded_pixel_def)
    then show "s((lx, ly + i * 8) := mem (?d + i * 8 * imageW)) = s(?key i := ?T (?key i))"
      by simp
  qed
  have upper: "for_loop 0 1 (\<lambda>i s. s((lx, ly + i * 8) :=
                 (if ?baseY \<ge> - i * 8 then mem (?d + i * 8 * imageW) else 0))) s
        = (\<lambda>k. if \<exists>i. 0 \<le> i \<and> i < 1 \<and> ?key i = k then ?T k else s k)" for s
  proof (rule for_loop_override_fun)
    fix i :: int and s :: tile
    assume i: "0 \<le> i" "i < 1"
    then have i0: "i = 0" by simp
    have c: "gy * 64 - 8 + (ly + 0 * 8) < imageH" using ly gy(1) gy' by linarith
    have e: "(?baseY \<ge> - 0 * 8) \<longleftrightarrow> 0 \<le> gy * 64 - 8 + (ly + 0 * 8)"
      by (simp add: algebra_simps)
    have "?T (?key i) = (if ?baseY \<ge> - i * 8 then mem (?d + i * 8 * imageW) else 0)"
      unfolding i0 addr e using c x by (simp add: columns_tile_def padded_pixel_def)
    then show "s((lx, ly + i * 8) :=
                 (if ?baseY \<ge> - i * 8 then mem (?d + i * 8 * imageW) else 0))
               = s(?key i := ?T (?key i))" by simp
  qed
  have lower: "for_loop (1 + 8) (1 + 8 + 1) (\<lambda>i s. s((lx, ly + i * 8) :=
                 (if imageH - ?baseY > i * 8 then mem (?d + i * 8 * imageW) else 0))) s
        = (\<lambda>k. if \<exists>i. 1 + 8 \<le> i \<and> i < 1 + 8 + 1 \<and> ?key i = k then ?T k else s k)" for s
  proof (rule for_loop_override_fun)
    fix i :: int and s :: tile
    assume i: "1 + 8 \<le> i" "i < 1 + 8 + 1"
    then have i9: "i = 9" by simp
    have c: "0 \<le> gy * 64 - 8 + (ly + 9 * 8)" using ly gy(1) by linarith
    have e: "(imageH - ?baseY > 9 * 8) \<longleftrightarrow> gy * 64 - 8 + (ly + 9 * 8) < imageH"
      by (simp add: algebra_simps)
    have "?T (?key i) = (if imageH - ?baseY > i * 8 then mem (?d + i * 8 * imageW) else 0)"
      unfolding i9 addr e using c x by (simp add: columns_tile_def padded_pixel_def)
    then show "s((lx, ly + i * 8) :=
                 (if imageH - ?baseY > i * 8 then mem (?d + i * 8 * imageW) else 0))
               = s(?key i := ?T (?key i))" by simp
  qed
  have index: "((\<exists>i. 1 + 8 \<le> i \<and> i < 1 + 8 + 1 \<and> ?key i = k)
                \<or> (\<exists>i. 0 \<le> i \<and> i < 1 \<and> ?key i = k)
                \<or> (\<exists>i. 1 \<le> i \<and> i < 1 + 8 \<and> ?key i = k))
               \<longleftrightarrow> fst k = lx \<and> (\<exists>i. 0 \<le> i \<and> i < 10 \<and> snd k = ly + i * 8)" for k :: "int \<times> int"
  proof
    assume "(\<exists>i. 1 + 8 \<le> i \<and> i < 1 + 8 + 1 \<and> ?key i = k)
                \<or> (\<exists>i. 0 \<le> i \<and> i < 1 \<and> ?key i = k)
                \<or> (\<exists>i. 1 \<le> i \<and> i < 1 + 8 \<and> ?key i = k)"
    then obtain i where "0 \<le> i" "i < 10" "?key i = k" by fastforce
    then show "fst k = lx \<and> (\<exists>i. 0 \<le> i \<and> i < 10 \<and> snd k = ly + i * 8)" by auto
  next
    assume "fst k = lx \<and> (\<exists>i. 0 \<le> i \<and> i < 10 \<and> snd k = ly + i * 8)"
    then obtain i where i: "0 \<le> i" "i < 10" "?key i = k" by (cases k) auto
    consider "i = 9" | "i = 0" | "1 \<le> i \<and> i < 9" using i(1,2) by linarith
    then show "(\<exists>i. 1 + 8 \<le> i \<and> i < 1 + 8 + 1 \<and> ?key i = k)
                \<or> (\<exists>i. 0 \<le> i \<and> i < 1 \<and> ?key i = k)
                \<or> (\<exists>i. 1 \<le> i \<and> i < 1 + 8 \<and> ?key i = k)"
    proof cases
      case 1 with i(3) show ?thesis by auto
    next
      case 2 with i(3) show ?thesis by auto
    next
      case 3 with i(3) show ?thesis by auto
    qed
  qed
  have "columns_load mem d_Src imageH imageW gx gy lx ly s
        = (\<lambda>k. if (\<exists>i. 1 + 8 \<le> i \<and> i < 1 + 8 + 1 \<and> ?key i = k) then ?T k
               else if (\<exists>i. 0 \<le> i \<and> i < 1 \<and> ?key i = k) then ?T k
               else if (\<exists>i. 1 \<le> i \<and> i < 1 + 8 \<and> ?key i = k) then ?T k else s k)"
    unfolding columns_load_def Let_def COLUMNS_BLOCKDIM_X_def COLUMNS_BLOCKDIM_Y_def
      COLUMNS_RESULT_STEPS_def COLUMNS_HALO_STEPS_def
    unfolding main upper lower ..
  also have "\<dots> = (\<lambda>k. if fst k = lx \<and> (\<exists>i. 0 \<le> i \<and> i < 10 \<and> snd k = ly + i * 8)
                then ?T k else s k)"
  proof (rule ext)
    fix k
    show "(if (\<exists>i. 1 + 8 \<le> i \<and> i < 1 + 8 + 1 \<and> ?key i = k) then ?T k
               else if (\<exists>i. 0 \<le> i \<and> i < 1 \<and> ?key i = k) then ?T k
               else if (\<exists>i. 1 \<le> i \<and> i < 1 + 8 \<and> ?key i = k) then ?T k else s k)
          = (if fst k = lx \<and> (\<exists>i. 0 \<le> i \<and> i < 10 \<and> snd k = ly + i * 8)
                then ?T k else s k)"
      using index[of k] by (simp only: split: if_splits) argo
  qed
  finally show ?thesis .
qed

lemma columns_tile_loaded:
  assumes gx: "0 \<le> gx" "(gx + 1) * 16 \<le> imageW" and gy: "0 \<le> gy" "(gy + 1) * 64 \<le> imageH"
    and k: "0 \<le> fst k" "fst k < 16" "0 \<le> snd k" "snd k < 80"
  shows "fold (\<lambda>(ly, lx). columns_load mem d_Src imageH imageW gx gy lx ly) (work_items 8 16) s0 k
         = columns_tile mem d_Src imageW imageH gx gy k"
proof -
  let ?P = "\<lambda>t k. fst k = snd t \<and> (\<exists>i. 0 \<le> i \<and> i < 10 \<and> snd k = fst t + i * 8)"
  let ?V = "columns_tile mem d_Src imageW imageH gx gy"
  have "fold (\<lambda>(ly, lx). columns_load mem d_Src imageH imageW gx gy lx ly) (work_items 8 16) s0
          = (\<lambda>k. if \<exists>t\<in>set (work_items 8 16). ?P t k then ?V k else s0 k) \<and> True"
  proof (rule fold_override[where I = "\<lambda>_. True"])
    fix t :: "int \<times> int" and s :: tile
    assume mem: "t \<in> set (work_items 8 16)"
    obtain ly lx where t: "t = (ly, lx)" by (cases t)
    from mem have r: "0 \<le> ly" "ly < 8" "0 \<le> lx" "lx < 16"
      unfolding t work_items_iff by simp_all
    show "(case t of (ly, lx) \<Rightarrow> columns_load mem d_Src imageH imageW gx gy lx ly) s
                 = (\<lambda>k. if ?P t k then ?V k else s k)"
      unfolding t by (simp add: columns_load_eq[OF r(3,4) r(1,2) gx gy])
  qed simp_all
  moreover have "\<exists>t\<in>set (work_items 8 16). ?P t k"
  proof -
    let ?t = "(snd k mod 8, fst k)"
    have "?t \<in> set (work_items 8 16)" using k by (simp add: work_items_iff)
    moreover have "0 \<le> snd k div 8" "snd k div 8 < 10" using k by simp_all
    moreover have "snd k = snd k mod 8 + snd k div 8 * 8" by simp
    ultimately show ?thesis by (intro bexI[of _ ?t]) auto
  qed
  ultimately show ?thesis by simp
qed

lemma columns_store_eq:
  assumes lx: "0 \<le> lx" "lx < 16" and gx: "0 \<le> gx" "(gx + 1) * 16 \<le> imageW"
    and ly: "0 \<le> ly" "ly < 8"
    and R: "R \<le> 8"
    and tile: "\<And>k. 0 \<le> fst k \<Longrightarrow> fst k < 16 \<Longrightarrow> 0 \<le> snd k \<Longrightarrow> snd k < 80 \<Longrightarrow>
                 s_Data k = columns_tile mem0 d_Src imageW imageH gx gy k"
  shows "columns_store R c_Kernel d_Dst imageW gx gy lx ly s_Data m
         = (\<lambda>a. if \<exists>i. 1 \<le> i \<and> i < 1 + 8
                        \<and> d_Dst + (((gy * 8 - 1) * 8 + ly) * imageW + (gx * 16 + lx))
                            + i * 8 * imageW = a
                then column_convolution R c_Kernel mem0 d_Src imageW imageH
                       (pixel_y d_Dst imageW a) (pixel_x d_Dst imageW a)
                else m a)"
proof -
  let ?d = "d_Dst + (((gy * 8 - 1) * 8 + ly) * imageW + (gx * 16 + lx))"
  let ?V = "\<lambda>a. column_convolution R c_Kernel mem0 d_Src imageW imageH
                    (pixel_y d_Dst imageW a) (pixel_x d_Dst imageW a)"
  let ?x = "gx * 16 + lx"
  have gx': "gx * 16 + 16 \<le> imageW" using gx(2) by (simp add: algebra_simps)
  have x: "0 \<le> ?x" "?x < imageW" using lx gx(1) gx' by linarith+
  have "for_loop 1 (1 + 8)
          (\<lambda>i m. m(?d + i * 8 * imageW :=
                     for_loop (- R) (R + 1)
                       (\<lambda>j acc. acc + c_Kernel (R - j) * s_Data (lx, ly + i * 8 + j)) 0)) m
        = (\<lambda>a. if \<exists>i. 1 \<le> i \<and> i < 1 + 8 \<and> ?d + i * 8 * imageW = a then ?V a else m a)"
  proof (rule for_loop_override_fun)
    fix i :: int and m :: fcells
    assume i: "1 \<le> i" "i < 1 + 8"
    let ?y = "gy * 64 - 8 + ly + i * 8"
    have addr: "?d + i * 8 * imageW = d_Dst + ?y * imageW + ?x" by (simp add: algebra_simps)
    have "for_loop (- R) (R + 1)
            (\<lambda>j acc. acc + c_Kernel (R - j) * s_Data (lx, ly + i * 8 + j)) 0
          = (\<Sum>j = - R..R. c_Kernel (R - j) * s_Data (lx, ly + i * 8 + j))"
      by (simp add: for_loop_sum atLeastLessThanPlusOne_atLeastAtMost_int)
    also have "\<dots> = (\<Sum>j = - R..R. c_Kernel (R - j)
                        * padded_pixel mem0 d_Src imageW imageH (?y + j) ?x)"
    proof (rule sum.cong)
      fix j assume "j \<in> {- R..R}"
      then have j: "- 8 \<le> j" "j \<le> 8" using R by simp_all
      have "s_Data (lx, ly + i * 8 + j)
              = columns_tile mem0 d_Src imageW imageH gx gy (lx, ly + i * 8 + j)"
        by (rule tile) (use i j lx ly in simp_all)
      then show "c_Kernel (R - j) * s_Data (lx, ly + i * 8 + j)
                 = c_Kernel (R - j) * padded_pixel mem0 d_Src imageW imageH (?y + j) ?x"
        by (simp add: columns_tile_def algebra_simps)
    qed simp
    also have "\<dots> = ?V (?d + i * 8 * imageW)"
      unfolding addr pixel_of_address[OF x] column_convolution_def ..
    finally show "m(?d + i * 8 * imageW :=
                     for_loop (- R) (R + 1)
                       (\<lambda>j acc. acc + c_Kernel (R - j) * s_Data (lx, ly + i * 8 + j)) 0)
                  = m(?d + i * 8 * imageW := ?V (?d + i * 8 * imageW))" by simp
  qed
  then show ?thesis
    unfolding columns_store_def Let_def COLUMNS_BLOCKDIM_X_def COLUMNS_BLOCKDIM_Y_def
      COLUMNS_RESULT_STEPS_def COLUMNS_HALO_STEPS_def .
qed

lemma column_convolution_cong:
  assumes "\<And>a. d_Src \<le> a \<Longrightarrow> a < d_Src + imageW * imageH \<Longrightarrow> s a = m a"
  shows "column_convolution R c_Kernel s d_Src imageW imageH y x
         = column_convolution R c_Kernel m d_Src imageW imageH y x"
  unfolding column_convolution_def
  by (rule sum.cong) (simp_all add: padded_pixel_cong[of d_Src imageW imageH s m, OF assms])

lemma columns_tile_covered:
  assumes "0 \<le> gx" "0 \<le> gy"
  shows "(\<exists>t\<in>set (work_items 8 16). \<exists>i. 1 \<le> i \<and> i < 1 + 8
            \<and> d_Dst + (((gy * 8 - 1) * 8 + fst t) * imageW + (gx * 16 + snd t))
                + i * 8 * imageW = a)
         \<longleftrightarrow> columns_in_tile d_Dst imageW (gy, gx) a"
proof
  assume "\<exists>t\<in>set (work_items 8 16). \<exists>i. 1 \<le> i \<and> i < 1 + 8
            \<and> d_Dst + (((gy * 8 - 1) * 8 + fst t) * imageW + (gx * 16 + snd t))
                + i * 8 * imageW = a"
  then obtain t i where t: "t \<in> set (work_items 8 16)" and i: "1 \<le> i" "i < 1 + 8"
    and a: "d_Dst + (((gy * 8 - 1) * 8 + fst t) * imageW + (gx * 16 + snd t))
                + i * 8 * imageW = a"
    by blast
  obtain ly lx where tt: "t = (ly, lx)" by (cases t)
  from t have r: "0 \<le> ly" "ly < 8" "0 \<le> lx" "lx < 16" unfolding tt work_items_iff by simp_all
  let ?y = "gy * 64 - 8 + ly + i * 8" and ?x = "gx * 16 + lx"
  have "gy * 64 \<le> ?y" "?y < gy * 64 + 64" "gx * 16 \<le> ?x" "?x < gx * 16 + 16"
    using r i by linarith+
  moreover have "a = d_Dst + ?y * imageW + ?x" using a unfolding tt by (simp add: algebra_simps)
  ultimately show "columns_in_tile d_Dst imageW (gy, gx) a"
    unfolding columns_in_tile_def fst_conv snd_conv by blast
next
  assume "columns_in_tile d_Dst imageW (gy, gx) a"
  then obtain y x where y: "gy * 64 \<le> y" "y < gy * 64 + 64"
    and x: "gx * 16 \<le> x" "x < gx * 16 + 16" and a: "a = d_Dst + y * imageW + x"
    unfolding columns_in_tile_def fst_conv snd_conv by blast
  let ?y' = "y - gy * 64"
  let ?t = "(?y' mod 8, x - gx * 16)" and ?i = "?y' div 8 + 1"
  have y': "0 \<le> ?y'" "?y' < 64" using y by simp_all
  have "?t \<in> set (work_items 8 16)" using x by (simp add: work_items_iff)
  moreover have "1 \<le> ?i" "?i < 1 + 8" using y' by simp_all
  moreover have "?y' = ?y' mod 8 + ?y' div 8 * 8" by simp
  then have "y = (gy * 8 - 1) * 8 + ?y' mod 8 + ?i * 8" by (simp add: algebra_simps)
  then have "y * imageW = ((gy * 8 - 1) * 8 + ?y' mod 8) * imageW + ?i * 8 * imageW"
    by (metis distrib_right)
  then have "d_Dst + (((gy * 8 - 1) * 8 + fst ?t) * imageW + (gx * 16 + snd ?t))
                + ?i * 8 * imageW = a"
    unfolding a fst_conv snd_conv by linarith
  ultimately show "\<exists>t\<in>set (work_items 8 16). \<exists>i. 1 \<le> i \<and> i < 1 + 8
            \<and> d_Dst + (((gy * 8 - 1) * 8 + fst t) * imageW + (gx * 16 + snd t))
                + i * 8 * imageW = a"
    by blast
qed

lemma convolutionColumnsKernel_eq:
  assumes gx: "0 \<le> gx" "(gx + 1) * 16 \<le> imageW" and gy: "0 \<le> gy" "(gy + 1) * 64 \<le> imageH"
    and R: "R \<le> 8"
  shows "convolutionColumnsKernel R c_Kernel d_Dst d_Src imageW imageH imageW (gy, gx) s0 mem
         = (\<lambda>a. if columns_in_tile d_Dst imageW (gy, gx) a
                then column_convolution R c_Kernel mem d_Src imageW imageH
                       (pixel_y d_Dst imageW a) (pixel_x d_Dst imageW a)
                else mem a)"
proof -
  define s_Data where
    "s_Data = fold (\<lambda>(ly, lx). columns_load mem d_Src imageH imageW gx gy lx ly)
                (work_items 8 16) s0"
  let ?P = "\<lambda>t a. \<exists>i. 1 \<le> i \<and> i < 1 + 8
            \<and> d_Dst + (((gy * 8 - 1) * 8 + fst t) * imageW + (gx * 16 + snd t))
                + i * 8 * imageW = a"
  let ?V = "\<lambda>a. column_convolution R c_Kernel mem d_Src imageW imageH
                    (pixel_y d_Dst imageW a) (pixel_x d_Dst imageW a)"
  have tile: "s_Data k = columns_tile mem d_Src imageW imageH gx gy k"
    if "0 \<le> fst k" "fst k < 16" "0 \<le> snd k" "snd k < 80" for k
    unfolding s_Data_def by (rule columns_tile_loaded[OF gx gy that])
  have "fold (\<lambda>(ly, lx). columns_store R c_Kernel d_Dst imageW gx gy lx ly s_Data)
          (work_items 8 16) mem
          = (\<lambda>a. if \<exists>t\<in>set (work_items 8 16). ?P t a then ?V a else mem a) \<and> True"
  proof (rule fold_override[where I = "\<lambda>_. True"])
    fix t :: "int \<times> int" and m :: fcells
    assume mem: "t \<in> set (work_items 8 16)"
    obtain ly lx where t: "t = (ly, lx)" by (cases t)
    from mem have r: "0 \<le> ly" "ly < 8" "0 \<le> lx" "lx < 16"
      unfolding t work_items_iff by simp_all
    show "(case t of (ly, lx) \<Rightarrow> columns_store R c_Kernel d_Dst imageW gx gy lx ly s_Data) m
            = (\<lambda>a. if ?P t a then ?V a else m a)"
      unfolding t prod.case fst_conv snd_conv
      by (rule columns_store_eq[OF r(3,4) gx r(1,2) R tile])
  qed simp_all
  then have "fold (\<lambda>(ly, lx). columns_store R c_Kernel d_Dst imageW gx gy lx ly s_Data)
               (work_items 8 16) mem
             = (\<lambda>a. if columns_in_tile d_Dst imageW (gy, gx) a then ?V a else mem a)"
    unfolding columns_tile_covered[OF gx(1) gy(1)] by simp
  then show ?thesis
    unfolding convolutionColumnsKernel_def Let_def COLUMNS_BLOCKDIM_X_def COLUMNS_BLOCKDIM_Y_def
      fst_conv snd_conv s_Data_def .
qed

lemma columns_in_tile_region:
  assumes g: "0 \<le> fst g" "(fst g + 1) * 64 \<le> imageH" "0 \<le> snd g" "(snd g + 1) * 16 \<le> imageW"
    and t: "columns_in_tile d_Dst imageW g a"
  shows "d_Dst \<le> a" and "a < d_Dst + imageW * imageH"
proof -
  from t obtain y x where y: "fst g * 64 \<le> y" "y < fst g * 64 + 64"
    and x: "snd g * 16 \<le> x" "x < snd g * 16 + 16" and a: "a = d_Dst + y * imageW + x"
    unfolding columns_in_tile_def by blast
  have "fst g * 64 + 64 \<le> imageH" "snd g * 16 + 16 \<le> imageW"
    using g(2,4) by (simp_all add: algebra_simps)
  then have "0 \<le> y" "y < imageH" "0 \<le> x" "x < imageW" using g(1,3) y x by linarith+
  then have "0 \<le> y * imageW + x" "y * imageW + x < imageW * imageH"
    by (rule pixel_in_image)+
  then show "d_Dst \<le> a" "a < d_Dst + imageW * imageH" unfolding a by simp_all
qed

lemma columns_launch:
  assumes W: "0 \<le> imageW" "imageW mod 16 = 0" and H: "0 \<le> imageH" "imageH mod 64 = 0"
    and R: "R \<le> 8" and sep: "images_apart d_Dst d_Src imageW imageH"
  shows "fold (\<lambda>g. convolutionColumnsKernel R c_Kernel d_Dst d_Src imageW imageH imageW g s0)
           (work_items (imageH div 64) (imageW div 16)) mem
         = (\<lambda>a. if \<exists>g\<in>set (work_items (imageH div 64) (imageW div 16)).
                       columns_in_tile d_Dst imageW g a
                then column_convolution R c_Kernel mem d_Src imageW imageH
                       (pixel_y d_Dst imageW a) (pixel_x d_Dst imageW a)
                else mem a)"
proof -
  let ?I = "\<lambda>s. \<forall>a. d_Src \<le> a \<and> a < d_Src + imageW * imageH \<longrightarrow> s a = mem a"
  let ?V = "\<lambda>a. column_convolution R c_Kernel mem d_Src imageW imageH
                    (pixel_y d_Dst imageW a) (pixel_x d_Dst imageW a)"
  let ?gs = "work_items (imageH div 64) (imageW div 16)"
  define wq hq where "wq = imageW div 16" and "hq = imageH div 64"
  have Weq: "imageW = wq * 16" using W(2) by (simp add: wq_def mod_0_imp_dvd)
  have Heq: "imageH = hq * 64" using H(2) by (simp add: hq_def mod_0_imp_dvd)
  have grp: "0 \<le> fst g \<and> (fst g + 1) * 64 \<le> imageH \<and> 0 \<le> snd g \<and> (snd g + 1) * 16 \<le> imageW"
    if "g \<in> set ?gs" for g
  proof -
    obtain gy gx where g: "g = (gy, gx)" by (cases g)
    from that have r: "0 \<le> gy" "gy < hq" "0 \<le> gx" "gx < wq"
      unfolding g work_items_iff wq_def hq_def by simp_all
    from r(2) have "(gy + 1) * 64 \<le> hq * 64" by simp
    moreover from r(4) have "(gx + 1) * 16 \<le> wq * 16" by simp
    ultimately show ?thesis using r(1,3) unfolding g Weq Heq by simp
  qed
  have "fold (\<lambda>g. convolutionColumnsKernel R c_Kernel d_Dst d_Src imageW imageH imageW g s0)
          ?gs mem
          = (\<lambda>a. if \<exists>g\<in>set ?gs. columns_in_tile d_Dst imageW g a then ?V a else mem a)
        \<and> ?I (fold (\<lambda>g. convolutionColumnsKernel R c_Kernel d_Dst d_Src imageW imageH imageW g s0)
                ?gs mem)"
  proof (rule fold_override[where I = ?I])
    fix g :: "int \<times> int" and s :: fcells
    assume g: "g \<in> set ?gs" and I: "?I s"
    obtain gy gx where gg: "g = (gy, gx)" by (cases g)
    from grp[OF g] have r: "0 \<le> gy" "(gy + 1) * 64 \<le> imageH" "0 \<le> gx" "(gx + 1) * 16 \<le> imageW"
      unfolding gg by simp_all
    have rc: "column_convolution R c_Kernel s d_Src imageW imageH y x
            = column_convolution R c_Kernel mem d_Src imageW imageH y x" for y x
      by (rule column_convolution_cong) (use I in simp)
    show "convolutionColumnsKernel R c_Kernel d_Dst d_Src imageW imageH imageW g s0 s
                 = (\<lambda>a. if columns_in_tile d_Dst imageW g a then ?V a else s a)"
      unfolding gg convolutionColumnsKernel_eq[OF r(3,4,1,2) R] rc ..
  next
    fix g :: "int \<times> int" and s :: fcells
    assume g: "g \<in> set ?gs" and I: "?I s"
    show "?I (\<lambda>a. if columns_in_tile d_Dst imageW g a then ?V a else s a)"
    proof (intro allI impI)
      fix a assume a: "d_Src \<le> a \<and> a < d_Src + imageW * imageH"
      have "\<not> columns_in_tile d_Dst imageW g a"
      proof
        assume "columns_in_tile d_Dst imageW g a"
        with grp[OF g] have "d_Dst \<le> a" "a < d_Dst + imageW * imageH"
          using columns_in_tile_region[of g imageH imageW d_Dst a] by simp_all
        with a sep show False unfolding images_apart_def by linarith
      qed
      with a I show "(if columns_in_tile d_Dst imageW g a then ?V a else s a) = mem a" by simp
    qed
  qed simp
  then show ?thesis by blast
qed

lemma convolutionColumnsGPU_effect:
  assumes "0 \<le> imageW" and "imageW < 2 ^ 31" and "0 \<le> imageH" and "imageH < 2 ^ 31"
    and "imageW mod COLUMNS_BLOCKDIM_X = 0"
    and "imageH mod (COLUMNS_RESULT_STEPS * COLUMNS_BLOCKDIM_Y) = 0"
    and "R \<le> COLUMNS_BLOCKDIM_Y * COLUMNS_HALO_STEPS"
    and "images_apart d_Dst d_Src imageW imageH"
  shows "case convolutionColumnsGPU R c_Kernel d_Dst d_Src imageW imageH mem of
           Inl e \<Rightarrow> False
         | Inr mem' \<Rightarrow>
             (\<forall>x y. 0 \<le> x \<and> x < imageW \<and> 0 \<le> y \<and> y < imageH \<longrightarrow>
                mem' (d_Dst + y * imageW + x)
                  = (\<Sum>j = - R..R. c_Kernel (R - j)
                       * (if 0 \<le> y + j \<and> y + j < imageH
                          then mem (d_Src + (y + j) * imageW + x) else 0)))"
proof -
  have W: "imageW mod 16 = 0" and H: "imageH mod 64 = 0" and R: "R \<le> 8"
    using assms(5-7)
    by (simp_all add: COLUMNS_RESULT_STEPS_def COLUMNS_BLOCKDIM_X_def COLUMNS_BLOCKDIM_Y_def
          COLUMNS_HALO_STEPS_def)
  have "0 \<le> imageW div 16" "imageW div 16 < 2 ^ 31" "0 \<le> imageH div 64" "imageH div 64 < 2 ^ 31"
    using assms(1-4) div_bounds[of imageW 16] div_bounds[of imageH 64] by simp_all
  then have bx: "uint32 (imageW sdiv 16) = imageW div 16"
    and "by": "uint32 (imageH sdiv 64) = imageH div 64"
    using assms(1,3) by (simp_all add: sdiv_nonneg uint32_small)
  have run: "convolutionColumnsGPU R c_Kernel d_Dst d_Src imageW imageH mem
     = Inr (fold (\<lambda>g. convolutionColumnsKernel R c_Kernel d_Dst d_Src imageW imageH imageW g
                        (\<lambda>_. 0))
              (work_items (imageH div 64) (imageW div 16)) mem)"
    using W H R assms(1,3)
    by (simp add: convolutionColumnsGPU_def COLUMNS_RESULT_STEPS_def COLUMNS_BLOCKDIM_X_def
          COLUMNS_BLOCKDIM_Y_def COLUMNS_HALO_STEPS_def smod_nonneg bx "by")
  have pix: "fold (\<lambda>g. convolutionColumnsKernel R c_Kernel d_Dst d_Src imageW imageH imageW g
                        (\<lambda>_. 0))
              (work_items (imageH div 64) (imageW div 16)) mem (d_Dst + y * imageW + x)
            = (\<Sum>j = - R..R. c_Kernel (R - j)
                       * (if 0 \<le> y + j \<and> y + j < imageH
                          then mem (d_Src + (y + j) * imageW + x) else 0))"
    if x: "0 \<le> x" "x < imageW" and y: "0 \<le> y" "y < imageH" for x y
  proof -
    let ?g = "(y div 64, x div 16)"
    have "y div 64 < imageH div 64" using _ y(2) H by (rule div_less_tiles) simp
    moreover have "x div 16 < imageW div 16" using _ x(2) W by (rule div_less_tiles) simp
    moreover have "0 \<le> y div 64" "0 \<le> x div 16"
      using x(1) y(1) by (simp_all add: pos_imp_zdiv_nonneg_iff)
    ultimately have g: "?g \<in> set (work_items (imageH div 64) (imageW div 16))"
      unfolding work_items_iff by blast
    have "y div 64 * 64 \<le> y" "y < y div 64 * 64 + 64" "x div 16 * 16 \<le> x" "x < x div 16 * 16 + 16"
      by (rule div_tile, simp)+
    then have "columns_in_tile d_Dst imageW ?g (d_Dst + y * imageW + x)"
      unfolding columns_in_tile_def fst_conv snd_conv by blast
    with g have ex: "\<exists>g\<in>set (work_items (imageH div 64) (imageW div 16)).
                   columns_in_tile d_Dst imageW g (d_Dst + y * imageW + x)" by blast
    have "padded_pixel mem d_Src imageW imageH (y + j) x
            = (if 0 \<le> y + j \<and> y + j < imageH then mem (d_Src + (y + j) * imageW + x) else 0)" for j
      using x by (simp add: padded_pixel_def)
    then show ?thesis
      using ex
      by (simp add: columns_launch[OF assms(1) W assms(3) H R assms(8)] pixel_of_address[OF x]
            column_convolution_def)
  qed
  show ?thesis unfolding run by (simp add: pix)
qed

lemma smod_eq_0_iff: "0 < b \<Longrightarrow> a smod b = 0 \<longleftrightarrow> b dvd (a::int)"
  by (auto simp: signed_modulo_int_def sgn_if mod_eq_0_iff_dvd)

subsection \<open>The offsets are values of the type int\<close>

lemma rows_offsets_fit:
  assumes W: "0 \<le> imageW" "imageW mod 128 = 0" and H: "0 \<le> imageH" "imageH mod 4 = 0"
    and bound: "imageW * imageH < 2 ^ 31"
    and g: "(gy, gx) \<in> set (work_items (imageH div 4) (imageW div 128))"
    and t: "(ly, lx) \<in> set (work_items 4 16)"
    and baseX: "baseX = (gx * ROWS_RESULT_STEPS - ROWS_HALO_STEPS) * ROWS_BLOCKDIM_X + lx"
    and baseY: "baseY = gy * ROWS_BLOCKDIM_Y + ly"
  shows "int_range baseX" and "int_range baseY" and "int_range (baseY * imageW)"
    and "int_range (baseY * imageW + baseX)" and "int_range (imageW - baseX)"
proof -
  have p31: "(2::int) ^ 31 = 2147483648" by simp
  note bound = bound[unfolded p31]
  define wq hq where "wq = imageW div 128" and "hq = imageH div 4"
  have Weq: "imageW = wq * 128" using W(2) by (simp add: wq_def mod_0_imp_dvd)
  have Heq: "imageH = hq * 4" using H(2) by (simp add: hq_def mod_0_imp_dvd)
  from g have r: "0 \<le> gy" "gy < hq" "0 \<le> gx" "gx < wq"
    unfolding work_items_iff wq_def hq_def by simp_all
  from t have l: "0 \<le> ly" "ly < 4" "0 \<le> lx" "lx < 16" unfolding work_items_iff by simp_all
  have y: "0 \<le> baseY" "baseY < imageH"
    using r(1,2) l(1,2) unfolding baseY Heq ROWS_BLOCKDIM_Y_def by linarith+
  have "baseX = gx * 128 - 16 + lx"
    unfolding baseX ROWS_RESULT_STEPS_def ROWS_HALO_STEPS_def ROWS_BLOCKDIM_X_def
    by (simp add: algebra_simps)
  then have x: "- 16 \<le> baseX" "baseX < imageW"
    using r(3,4) l(3,4) unfolding Weq by linarith+
  have W1: "128 \<le> imageW" using r(3,4) unfolding Weq by linarith
  have H1: "4 \<le> imageH" using r(1,2) unfolding Heq by linarith
  have "4 * imageW \<le> imageH * imageW" by (rule mult_right_mono) (use H1 W(1) in simp_all)
  then have Wb: "4 * imageW < 2147483648" using bound by (simp add: mult.commute)
  have "128 * imageH \<le> imageW * imageH" by (rule mult_right_mono) (use W1 H(1) in simp_all)
  then have Hb: "128 * imageH < 2147483648" using bound by simp
  have p0: "0 \<le> baseY * imageW" using y(1) W(1) by simp
  have "(baseY + 1) * imageW \<le> imageH * imageW"
    by (rule mult_right_mono) (use y(2) W(1) in simp_all)
  then have p1: "baseY * imageW + imageW \<le> imageW * imageH" by (simp add: algebra_simps)
  show "int_range baseX" unfolding int_range_def p31 using x W(1) Wb by linarith
  show "int_range baseY" unfolding int_range_def p31 using y H(1) Hb by linarith
  show "int_range (baseY * imageW)" unfolding int_range_def p31 using p0 p1 W(1) bound by linarith
  show "int_range (baseY * imageW + baseX)"
    unfolding int_range_def p31 using p0 p1 x bound by linarith
  show "int_range (imageW - baseX)" unfolding int_range_def p31 using x W(1) Wb by linarith
qed

lemma columns_offsets_fit:
  assumes W: "0 \<le> imageW" "imageW mod 16 = 0" and H: "0 \<le> imageH" "imageH mod 64 = 0"
    and bound: "imageW * imageH < 2 ^ 31"
    and g: "(gy, gx) \<in> set (work_items (imageH div 64) (imageW div 16))"
    and t: "(ly, lx) \<in> set (work_items 8 16)"
    and baseX: "baseX = gx * COLUMNS_BLOCKDIM_X + lx"
    and baseY: "baseY = (gy * COLUMNS_RESULT_STEPS - COLUMNS_HALO_STEPS) * COLUMNS_BLOCKDIM_Y + ly"
  shows "int_range baseX" and "int_range baseY" and "int_range (baseY * imageW)"
    and "int_range (baseY * imageW + baseX)" and "int_range (imageH - baseY)"
    and "0 \<le> i \<and> i < COLUMNS_HALO_STEPS + COLUMNS_RESULT_STEPS
           \<Longrightarrow> int_range (i * COLUMNS_BLOCKDIM_Y * imageW)"
    and "imageH - baseY > 9 * COLUMNS_BLOCKDIM_Y \<Longrightarrow> int_range (9 * COLUMNS_BLOCKDIM_Y * imageW)"
proof -
  have p31: "(2::int) ^ 31 = 2147483648" by simp
  note bound = bound[unfolded p31]
  define wq hq where "wq = imageW div 16" and "hq = imageH div 64"
  have Weq: "imageW = wq * 16" using W(2) by (simp add: wq_def mod_0_imp_dvd)
  have Heq: "imageH = hq * 64" using H(2) by (simp add: hq_def mod_0_imp_dvd)
  from g have r: "0 \<le> gy" "gy < hq" "0 \<le> gx" "gx < wq"
    unfolding work_items_iff wq_def hq_def by simp_all
  from t have l: "0 \<le> ly" "ly < 8" "0 \<le> lx" "lx < 16" unfolding work_items_iff by simp_all
  have "baseY = gy * 64 - 8 + ly"
    unfolding baseY COLUMNS_RESULT_STEPS_def COLUMNS_HALO_STEPS_def COLUMNS_BLOCKDIM_Y_def
    by (simp add: algebra_simps)
  then have y: "- 8 \<le> baseY" "baseY < imageH - 56"
    using r(1,2) l(1,2) unfolding Heq by linarith+
  have x: "0 \<le> baseX" "baseX < imageW"
    using r(3,4) l(3,4) unfolding baseX Weq COLUMNS_BLOCKDIM_X_def by linarith+
  have W1: "16 \<le> imageW" using r(3,4) unfolding Weq by linarith
  have H1: "64 \<le> imageH" using r(1,2) unfolding Heq by linarith
  have "64 * imageW \<le> imageH * imageW" by (rule mult_right_mono) (use H1 W(1) in simp_all)
  then have Wb: "64 * imageW < 2147483648" using bound by (simp add: mult.commute)
  have "16 * imageH \<le> imageW * imageH" by (rule mult_right_mono) (use W1 H(1) in simp_all)
  then have Hb: "16 * imageH < 2147483648" using bound by simp
  have "- 8 * imageW \<le> baseY * imageW" by (rule mult_right_mono) (use y(1) W(1) in simp_all)
  then have p0: "- (8 * imageW) \<le> baseY * imageW" by simp
  have "(baseY + 1) * imageW \<le> imageH * imageW"
    by (rule mult_right_mono) (use y(2) W(1) in simp_all)
  then have p1: "baseY * imageW + imageW \<le> imageW * imageH" by (simp add: algebra_simps)
  show "int_range baseX" unfolding int_range_def p31 using x W(1) Wb by linarith
  show "int_range baseY" unfolding int_range_def p31 using y H(1) Hb by linarith
  show "int_range (baseY * imageW)"
    unfolding int_range_def p31 using p0 p1 W(1) Wb bound by linarith
  show "int_range (baseY * imageW + baseX)"
    unfolding int_range_def p31 using p0 p1 x W(1) Wb bound by linarith
  show "int_range (imageH - baseY)" unfolding int_range_def p31 using y H(1) Hb by linarith
  show "int_range (i * COLUMNS_BLOCKDIM_Y * imageW)"
    if "0 \<le> i \<and> i < COLUMNS_HALO_STEPS + COLUMNS_RESULT_STEPS"
  proof -
    from that have i: "0 \<le> i * 8" "i * 8 \<le> 64"
      by (simp_all add: COLUMNS_HALO_STEPS_def COLUMNS_RESULT_STEPS_def)
    have "0 \<le> i * 8 * imageW" using i(1) W(1) by simp
    moreover have "i * 8 * imageW \<le> 64 * imageW"
      by (rule mult_right_mono) (use i(2) W(1) in simp_all)
    ultimately show ?thesis
      unfolding int_range_def p31 COLUMNS_BLOCKDIM_Y_def using Wb by linarith
  qed
  show "int_range (9 * COLUMNS_BLOCKDIM_Y * imageW)" if "imageH - baseY > 9 * COLUMNS_BLOCKDIM_Y"
  proof -
    from that y(1) have "64 < hq * 64" unfolding Heq by (simp add: COLUMNS_BLOCKDIM_Y_def)
    then have "2 \<le> hq" by simp
    then have "72 \<le> imageH" unfolding Heq by simp
    then have "72 * imageW \<le> imageH * imageW"
      by (rule mult_right_mono) (use W(1) in simp_all)
    then have "72 * imageW < 2147483648" using bound by (simp add: mult.commute)
    then show ?thesis unfolding int_range_def p31 COLUMNS_BLOCKDIM_Y_def using W(1) by simp
  qed
qed

subsection \<open>The identity kernel\<close>

lemma isfinite_iff: "isfinite v \<longleftrightarrow> (\<exists>r. v = Finite r)"
  by (cases v) simp_all

lemma identity_kernel_sum:
  assumes "isfinite a" and "isfinite b" and "isfinite c" and "isfinite d"
  shows "(0::float) * a + 0 * b + 1 * v + 0 * c + 0 * d = v"
proof -
  from assms obtain ra rb rc rd
    where "a = Finite ra" "b = Finite rb" "c = Finite rc" "d = Finite rd"
    unfolding isfinite_iff by blast
  then show ?thesis
    by (cases v) (simp_all add: zero_float_def one_float_def plus_float_def times_float_def)
qed

lemma identity_row_pixel:
  fixes c_Kernel mem :: fcells
  assumes K: "c_Kernel 0 = 0" "c_Kernel 1 = 0" "c_Kernel 2 = 1" "c_Kernel 3 = 0" "c_Kernel 4 = 0"
    and fin: "\<forall>x y. 0 \<le> x \<and> x < imageW \<and> 0 \<le> y \<and> y < imageH \<longrightarrow>
                isfinite (mem (d_Src + y * imageW + x))"
    and x: "0 \<le> x" "x < imageW" and y: "0 \<le> y" "y < imageH"
  shows "(\<Sum>j = - 2..2. c_Kernel (2 - j)
            * (if 0 \<le> x + j \<and> x + j < imageW
               then mem (d_Src + y * imageW + (x + j)) else 0))
         = mem (d_Src + y * imageW + x)"
proof -
  define P where "P j = (if 0 \<le> x + j \<and> x + j < imageW
                         then mem (d_Src + y * imageW + (x + j)) else 0)" for j
  have f: "isfinite (P j)" for j
    unfolding P_def using fin[rule_format, of "x + j" y] y by (simp add: zero_float_def)
  have P0: "P 0 = mem (d_Src + y * imageW + x)" unfolding P_def using x by simp
  have "(\<Sum>j = - 2..2. c_Kernel (2 - j) * P j)
          = 0 * P (- 2) + 0 * P (- 1) + 1 * P 0 + 0 * P 1 + 0 * P 2"
    unfolding sum_radius_2 by (simp add: K)
  also have "\<dots> = P 0" by (rule identity_kernel_sum) (rule f)+
  finally show ?thesis unfolding P0 unfolding P_def .
qed

lemma identity_column_pixel:
  fixes c_Kernel mem :: fcells
  assumes K: "c_Kernel 0 = 0" "c_Kernel 1 = 0" "c_Kernel 2 = 1" "c_Kernel 3 = 0" "c_Kernel 4 = 0"
    and fin: "\<forall>x y. 0 \<le> x \<and> x < imageW \<and> 0 \<le> y \<and> y < imageH \<longrightarrow>
                isfinite (mem (d_Src + y * imageW + x))"
    and x: "0 \<le> x" "x < imageW" and y: "0 \<le> y" "y < imageH"
  shows "(\<Sum>j = - 2..2. c_Kernel (2 - j)
            * (if 0 \<le> y + j \<and> y + j < imageH
               then mem (d_Src + (y + j) * imageW + x) else 0))
         = mem (d_Src + y * imageW + x)"
proof -
  define P where "P j = (if 0 \<le> y + j \<and> y + j < imageH
                         then mem (d_Src + (y + j) * imageW + x) else 0)" for j
  have f: "isfinite (P j)" for j
    unfolding P_def using fin[rule_format, of x "y + j"] x by (simp add: zero_float_def)
  have P0: "P 0 = mem (d_Src + y * imageW + x)" unfolding P_def using y by simp
  have "(\<Sum>j = - 2..2. c_Kernel (2 - j) * P j)
          = 0 * P (- 2) + 0 * P (- 1) + 1 * P 0 + 0 * P 1 + 0 * P 2"
    unfolding sum_radius_2 by (simp add: K)
  also have "\<dots> = P 0" by (rule identity_kernel_sum) (rule f)+
  finally show ?thesis unfolding P0 unfolding P_def .
qed
subsection \<open>The claims on the convolution\<close>

text \<open>
  Claim C2. For an image whose width is a multiple of \<open>ROWS_RESULT_STEPS * ROWS_BLOCKDIM_X\<close>
  and whose height is a multiple of \<open>ROWS_BLOCKDIM_Y\<close>, with \<open>KERNEL_RADIUS\<close> within the halo
  (the first assertion of \<open>convolutionRowsGPU\<close>), fewer than \<open>2 ^ 31\<close> pixels (so that the
  offsets are values of the type \<open>int\<close>) and a destination that does not overlap the source,
  the row pass succeeds and writes to every destination pixel \<open>(x, y)\<close> the sum over
  \<open>j = -KERNEL_RADIUS \<dots> KERNEL_RADIUS\<close> of \<open>c_Kernel[KERNEL_RADIUS - j]\<close> times the source
  pixel \<open>(x + j, y)\<close>, where a column \<open>x + j\<close> outside \<open>[0, imageW)\<close> contributes zero.
\<close>

theorem C2_rows:
  assumes "0 \<le> imageW" and "imageW < 2 ^ 31" and "0 \<le> imageH" and "imageH < 2 ^ 31"
    and "imageW * imageH < 2 ^ 31"
    and "imageW mod (ROWS_RESULT_STEPS * ROWS_BLOCKDIM_X) = 0"
    and "imageH mod ROWS_BLOCKDIM_Y = 0"
    and "R \<le> ROWS_BLOCKDIM_X * ROWS_HALO_STEPS"
    and "images_apart d_Dst d_Src imageW imageH"
  shows "case convolutionRowsGPU R c_Kernel d_Dst d_Src imageW imageH mem of
           Inl e \<Rightarrow> False
         | Inr mem' \<Rightarrow>
             (\<forall>x y. 0 \<le> x \<and> x < imageW \<and> 0 \<le> y \<and> y < imageH \<longrightarrow>
                mem' (d_Dst + y * imageW + x)
                  = (\<Sum>j = - R..R. c_Kernel (R - j)
                       * (if 0 \<le> x + j \<and> x + j < imageW
                          then mem (d_Src + y * imageW + (x + j)) else 0)))"
  using assms(1-4,6-9) by (rule convolutionRowsGPU_effect)

theorem C2_rows_witness:
  "case convolutionRowsGPU 1 (\<lambda>i. if i = 0 then Finite 2 else if i = 1 then Finite 3 else Finite 5)
          512 0 128 4 (\<lambda>a. if a = 0 then Finite 1 else Finite 0) of
     Inl e \<Rightarrow> False
   | Inr mem' \<Rightarrow> mem' 512 = Finite 3 \<and> mem' 513 = Finite 5 \<and> mem' 514 = Finite 0"
proof -
  let ?K = "\<lambda>i::int. if i = 0 then Finite 2 else if i = 1 then Finite 3 else Finite 5"
  let ?M = "\<lambda>a::int. if a = 0 then Finite 1 else Finite 0"
  have h: "images_apart 512 0 128 4" by (simp add: images_apart_def)
  note t = C2_rows[of 128 4 1 512 0 ?K ?M, OF _ _ _ _ _ _ _ _ h]
  show ?thesis
  proof (cases "convolutionRowsGPU 1 ?K 512 0 128 4 ?M")
    case (Inl e)
    with t show ?thesis
      by (simp add: ROWS_RESULT_STEPS_def ROWS_BLOCKDIM_X_def ROWS_BLOCKDIM_Y_def ROWS_HALO_STEPS_def)
  next
    case (Inr mem')
    with t have a: "\<forall>x y. 0 \<le> x \<and> x < 128 \<and> 0 \<le> y \<and> y < 4 \<longrightarrow>
                mem' (512 + y * 128 + x)
                  = (\<Sum>j = - 1..1. ?K (1 - j)
                       * (if 0 \<le> x + j \<and> x + j < 128 then ?M (0 + y * 128 + (x + j)) else 0))"
      by (simp add: ROWS_RESULT_STEPS_def ROWS_BLOCKDIM_X_def ROWS_BLOCKDIM_Y_def ROWS_HALO_STEPS_def)
    from a[rule_format, of 0 0] a[rule_format, of 1 0] a[rule_format, of 2 0]
    show ?thesis unfolding Inr
      by (simp add: sum_radius_1 zero_float_def plus_float_def times_float_def)
  qed
qed

text \<open>
  Claim C6, as the specification states it: the identity kernel reproduces every input
  image. An infinite pixel is a counterexample: in the row pass its neighbour in the row,
  and in the column pass its neighbour in the column, receives \<open>0 * \<infinity>\<close>, which is NaN, and is
  written as NaN although the source pixel there is zero.
\<close>

theorem C6_counterexample:
  "(\<exists>mem'. convolutionRowsGPU 2 identity_kernel 512 0 128 4 infinite_pixel = Inr mem'
       \<and> infinite_pixel (0 + 0 * 128 + 1) = Finite 0 \<and> mem' (512 + 0 * 128 + 1) = NaN)
   \<and> (\<exists>mem'. convolutionColumnsGPU 2 identity_kernel 1024 0 16 64 infinite_pixel = Inr mem'
       \<and> infinite_pixel (0 + 1 * 16 + 0) = Finite 0 \<and> mem' (1024 + 1 * 16 + 0) = NaN)"
proof (intro conjI)
  have h: "images_apart 512 0 128 4" by (simp add: images_apart_def)
  have e: "case convolutionRowsGPU 2 identity_kernel 512 0 128 4 infinite_pixel of
             Inl e \<Rightarrow> False
           | Inr mem' \<Rightarrow>
               (\<forall>x y. 0 \<le> x \<and> x < 128 \<and> 0 \<le> y \<and> y < 4 \<longrightarrow>
                  mem' (512 + y * 128 + x)
                    = (\<Sum>j = - 2..2. identity_kernel (2 - j)
                         * (if 0 \<le> x + j \<and> x + j < 128
                            then infinite_pixel (0 + y * 128 + (x + j)) else 0)))"
    by (rule convolutionRowsGPU_effect[OF _ _ _ _ _ _ _ h])
       (simp_all add: ROWS_RESULT_STEPS_def ROWS_BLOCKDIM_X_def ROWS_BLOCKDIM_Y_def
          ROWS_HALO_STEPS_def)
  show "\<exists>mem'. convolutionRowsGPU 2 identity_kernel 512 0 128 4 infinite_pixel = Inr mem'
       \<and> infinite_pixel (0 + 0 * 128 + 1) = Finite 0 \<and> mem' (512 + 0 * 128 + 1) = NaN"
  proof (cases "convolutionRowsGPU 2 identity_kernel 512 0 128 4 infinite_pixel")
    case (Inl err)
    with e show ?thesis by simp
  next
    case (Inr mem')
    with e have a: "\<forall>x y. 0 \<le> x \<and> x < 128 \<and> 0 \<le> y \<and> y < 4 \<longrightarrow>
                  mem' (512 + y * 128 + x)
                    = (\<Sum>j = - 2..2. identity_kernel (2 - j)
                         * (if 0 \<le> x + j \<and> x + j < 128
                            then infinite_pixel (0 + y * 128 + (x + j)) else 0))" by simp
    from a[rule_format, of 1 0] show ?thesis unfolding Inr
      by (simp add: sum_radius_2 identity_kernel_def infinite_pixel_def
            zero_float_def one_float_def plus_float_def times_float_def)
  qed
next
  have h: "images_apart 1024 0 16 64" by (simp add: images_apart_def)
  have e: "case convolutionColumnsGPU 2 identity_kernel 1024 0 16 64 infinite_pixel of
             Inl e \<Rightarrow> False
           | Inr mem' \<Rightarrow>
               (\<forall>x y. 0 \<le> x \<and> x < 16 \<and> 0 \<le> y \<and> y < 64 \<longrightarrow>
                  mem' (1024 + y * 16 + x)
                    = (\<Sum>j = - 2..2. identity_kernel (2 - j)
                         * (if 0 \<le> y + j \<and> y + j < 64
                            then infinite_pixel (0 + (y + j) * 16 + x) else 0)))"
    by (rule convolutionColumnsGPU_effect[OF _ _ _ _ _ _ _ h])
       (simp_all add: COLUMNS_RESULT_STEPS_def COLUMNS_BLOCKDIM_X_def COLUMNS_BLOCKDIM_Y_def
          COLUMNS_HALO_STEPS_def)
  show "\<exists>mem'. convolutionColumnsGPU 2 identity_kernel 1024 0 16 64 infinite_pixel = Inr mem'
       \<and> infinite_pixel (0 + 1 * 16 + 0) = Finite 0 \<and> mem' (1024 + 1 * 16 + 0) = NaN"
  proof (cases "convolutionColumnsGPU 2 identity_kernel 1024 0 16 64 infinite_pixel")
    case (Inl err)
    with e show ?thesis by simp
  next
    case (Inr mem')
    with e have a: "\<forall>x y. 0 \<le> x \<and> x < 16 \<and> 0 \<le> y \<and> y < 64 \<longrightarrow>
                  mem' (1024 + y * 16 + x)
                    = (\<Sum>j = - 2..2. identity_kernel (2 - j)
                         * (if 0 \<le> y + j \<and> y + j < 64
                            then infinite_pixel (0 + (y + j) * 16 + x) else 0))" by simp
    from a[rule_format, of 0 1] show ?thesis unfolding Inr
      by (simp add: sum_radius_2 identity_kernel_def infinite_pixel_def
            zero_float_def one_float_def plus_float_def times_float_def)
  qed
qed

text \<open>
  Claim C6, amended. With the identity kernel \<open>[0, 0, 1, 0, 0]\<close> and \<open>KERNEL_RADIUS = 2\<close>, for
  an image whose pixels are all finite and fewer than \<open>2 ^ 31\<close>, and a destination that does
  not overlap the source, the row pass alone, when the image meets the divisibility
  conditions of the row pass, and the column pass alone, when it meets those of the column
  pass, each write a destination equal to the source at every pixel.
\<close>

theorem C6_identity_kernel:
  assumes "0 \<le> imageW" and "imageW < 2 ^ 31" and "0 \<le> imageH" and "imageH < 2 ^ 31"
    and "imageW * imageH < 2 ^ 31"
    and "images_apart d_Dst d_Src imageW imageH"
    and "c_Kernel 0 = 0" and "c_Kernel 1 = 0" and "c_Kernel 2 = 1"
    and "c_Kernel 3 = 0" and "c_Kernel 4 = 0"
    and "\<forall>x y. 0 \<le> x \<and> x < imageW \<and> 0 \<le> y \<and> y < imageH \<longrightarrow>
           isfinite (mem (d_Src + y * imageW + x))"
  shows "(imageW mod (ROWS_RESULT_STEPS * ROWS_BLOCKDIM_X) = 0 \<and> imageH mod ROWS_BLOCKDIM_Y = 0
            \<longrightarrow> (\<exists>mem'. convolutionRowsGPU 2 c_Kernel d_Dst d_Src imageW imageH mem = Inr mem'
                   \<and> (\<forall>x y. 0 \<le> x \<and> x < imageW \<and> 0 \<le> y \<and> y < imageH \<longrightarrow>
                         mem' (d_Dst + y * imageW + x) = mem (d_Src + y * imageW + x))))
       \<and> (imageW mod COLUMNS_BLOCKDIM_X = 0
            \<and> imageH mod (COLUMNS_RESULT_STEPS * COLUMNS_BLOCKDIM_Y) = 0
            \<longrightarrow> (\<exists>mem'. convolutionColumnsGPU 2 c_Kernel d_Dst d_Src imageW imageH mem = Inr mem'
                   \<and> (\<forall>x y. 0 \<le> x \<and> x < imageW \<and> 0 \<le> y \<and> y < imageH \<longrightarrow>
                         mem' (d_Dst + y * imageW + x) = mem (d_Src + y * imageW + x))))"
proof (intro conjI impI)
  assume d: "imageW mod (ROWS_RESULT_STEPS * ROWS_BLOCKDIM_X) = 0 \<and> imageH mod ROWS_BLOCKDIM_Y = 0"
  have R: "(2::int) \<le> ROWS_BLOCKDIM_X * ROWS_HALO_STEPS"
    by (simp add: ROWS_BLOCKDIM_X_def ROWS_HALO_STEPS_def)
  note e = convolutionRowsGPU_effect[OF assms(1-4) conjunct1[OF d] conjunct2[OF d] R assms(6),
      of c_Kernel mem]
  show "\<exists>mem'. convolutionRowsGPU 2 c_Kernel d_Dst d_Src imageW imageH mem = Inr mem'
          \<and> (\<forall>x y. 0 \<le> x \<and> x < imageW \<and> 0 \<le> y \<and> y < imageH \<longrightarrow>
                mem' (d_Dst + y * imageW + x) = mem (d_Src + y * imageW + x))"
  proof (cases "convolutionRowsGPU 2 c_Kernel d_Dst d_Src imageW imageH mem")
    case (Inl err)
    with e show ?thesis by simp
  next
    case (Inr mem')
    with e have "\<forall>x y. 0 \<le> x \<and> x < imageW \<and> 0 \<le> y \<and> y < imageH \<longrightarrow>
                mem' (d_Dst + y * imageW + x) = mem (d_Src + y * imageW + x)"
      by (simp add: identity_row_pixel[OF assms(7-12)])
    with Inr show ?thesis by simp
  qed
next
  assume d: "imageW mod COLUMNS_BLOCKDIM_X = 0
               \<and> imageH mod (COLUMNS_RESULT_STEPS * COLUMNS_BLOCKDIM_Y) = 0"
  have R: "(2::int) \<le> COLUMNS_BLOCKDIM_Y * COLUMNS_HALO_STEPS"
    by (simp add: COLUMNS_BLOCKDIM_Y_def COLUMNS_HALO_STEPS_def)
  note e = convolutionColumnsGPU_effect[OF assms(1-4) conjunct1[OF d] conjunct2[OF d] R assms(6),
      of c_Kernel mem]
  show "\<exists>mem'. convolutionColumnsGPU 2 c_Kernel d_Dst d_Src imageW imageH mem = Inr mem'
          \<and> (\<forall>x y. 0 \<le> x \<and> x < imageW \<and> 0 \<le> y \<and> y < imageH \<longrightarrow>
                mem' (d_Dst + y * imageW + x) = mem (d_Src + y * imageW + x))"
  proof (cases "convolutionColumnsGPU 2 c_Kernel d_Dst d_Src imageW imageH mem")
    case (Inl err)
    with e show ?thesis by simp
  next
    case (Inr mem')
    with e have "\<forall>x y. 0 \<le> x \<and> x < imageW \<and> 0 \<le> y \<and> y < imageH \<longrightarrow>
                mem' (d_Dst + y * imageW + x) = mem (d_Src + y * imageW + x)"
      by (simp add: identity_column_pixel[OF assms(7-12)])
    with Inr show ?thesis by simp
  qed
qed

theorem C6_identity_kernel_witness:
  "(\<exists>mem'. convolutionRowsGPU 2 identity_kernel 8192 0 128 64 (\<lambda>a. Finite (real_of_int a))
               = Inr mem'
       \<and> mem' 8192 = Finite 0 \<and> mem' (8192 + 5 * 128 + 7) = Finite 647)
   \<and> (\<exists>mem'. convolutionColumnsGPU 2 identity_kernel 8192 0 128 64 (\<lambda>a. Finite (real_of_int a))
               = Inr mem'
       \<and> mem' 8192 = Finite 0 \<and> mem' (8192 + 5 * 128 + 7) = Finite 647)"
proof -
  let ?M = "\<lambda>a::int. Finite (real_of_int a)"
  have h: "images_apart 8192 0 128 64" by (simp add: images_apart_def)
  have t: "(\<exists>mem'. convolutionRowsGPU 2 identity_kernel 8192 0 128 64 ?M = Inr mem'
                   \<and> (\<forall>x y. 0 \<le> x \<and> x < 128 \<and> 0 \<le> y \<and> y < 64 \<longrightarrow>
                         mem' (8192 + y * 128 + x) = ?M (0 + y * 128 + x)))
       \<and> (\<exists>mem'. convolutionColumnsGPU 2 identity_kernel 8192 0 128 64 ?M = Inr mem'
                   \<and> (\<forall>x y. 0 \<le> x \<and> x < 128 \<and> 0 \<le> y \<and> y < 64 \<longrightarrow>
                         mem' (8192 + y * 128 + x) = ?M (0 + y * 128 + x)))"
    using C6_identity_kernel[of 128 64 8192 0 identity_kernel ?M, OF _ _ _ _ _ h]
    by (simp add: identity_kernel_def ROWS_RESULT_STEPS_def ROWS_BLOCKDIM_X_def
        ROWS_BLOCKDIM_Y_def COLUMNS_RESULT_STEPS_def COLUMNS_BLOCKDIM_X_def
        COLUMNS_BLOCKDIM_Y_def)
  from t obtain m1 where m1: "convolutionRowsGPU 2 identity_kernel 8192 0 128 64 ?M = Inr m1"
    and a1: "\<forall>x y. 0 \<le> x \<and> x < 128 \<and> 0 \<le> y \<and> y < 64 \<longrightarrow>
                         m1 (8192 + y * 128 + x) = ?M (0 + y * 128 + x)" by blast
  from t obtain m2 where m2: "convolutionColumnsGPU 2 identity_kernel 8192 0 128 64 ?M = Inr m2"
    and a2: "\<forall>x y. 0 \<le> x \<and> x < 128 \<and> 0 \<le> y \<and> y < 64 \<longrightarrow>
                         m2 (8192 + y * 128 + x) = ?M (0 + y * 128 + x)" by blast
  from a1[rule_format, of 0 0] a1[rule_format, of 7 5]
  have "m1 8192 = Finite 0 \<and> m1 (8192 + 5 * 128 + 7) = Finite 647" by simp
  moreover from a2[rule_format, of 0 0] a2[rule_format, of 7 5]
  have "m2 8192 = Finite 0 \<and> m2 (8192 + 5 * 128 + 7) = Finite 647" by simp
  ultimately show ?thesis unfolding m1 m2 by simp
qed

text \<open>
  Claim C4, as the specification states it: a violation of the dimension preconditions is not
  checked, and the two host functions proceed. The code checks them: a width of 100, which
  is no multiple of 128, stops \<open>convolutionRowsGPU\<close> at its second assertion, and a height
  of 4, which is no multiple of 64, stops \<open>convolutionColumnsGPU\<close> at its third.
\<close>

theorem C4_counterexample:
  "convolutionRowsGPU 1 (\<lambda>_. 1) 512 0 100 4 (\<lambda>_. 0) = Inl AssertionFailed
   \<and> convolutionColumnsGPU 1 (\<lambda>_. 1) 512 0 16 4 (\<lambda>_. 0) = Inl AssertionFailed"
  by (simp add: convolutionRowsGPU_def convolutionColumnsGPU_def
        ROWS_RESULT_STEPS_def ROWS_BLOCKDIM_X_def ROWS_BLOCKDIM_Y_def ROWS_HALO_STEPS_def
        COLUMNS_RESULT_STEPS_def COLUMNS_BLOCKDIM_X_def COLUMNS_BLOCKDIM_Y_def
        COLUMNS_HALO_STEPS_def signed_modulo_int_def)

text \<open>
  Claim C4, amended. Whenever \<open>imageW\<close> is not a multiple of
  \<open>ROWS_RESULT_STEPS * ROWS_BLOCKDIM_X\<close> or \<open>imageH\<close> is not a multiple of \<open>ROWS_BLOCKDIM_Y\<close>,
  \<open>convolutionRowsGPU\<close> fails an assertion before it launches the kernel, and whenever
  \<open>imageW\<close> is not a multiple of \<open>COLUMNS_BLOCKDIM_X\<close> or \<open>imageH\<close> is not a multiple of
  \<open>COLUMNS_RESULT_STEPS * COLUMNS_BLOCKDIM_Y\<close>, so does \<open>convolutionColumnsGPU\<close>: no output
  is written.
\<close>

theorem C4_violations_fail:
  "(\<not> (ROWS_RESULT_STEPS * ROWS_BLOCKDIM_X) dvd imageW \<or> \<not> ROWS_BLOCKDIM_Y dvd imageH
      \<longrightarrow> convolutionRowsGPU R c_Kernel d_Dst d_Src imageW imageH mem = Inl AssertionFailed)
   \<and> (\<not> COLUMNS_BLOCKDIM_X dvd imageW \<or> \<not> (COLUMNS_RESULT_STEPS * COLUMNS_BLOCKDIM_Y) dvd imageH
      \<longrightarrow> convolutionColumnsGPU R c_Kernel d_Dst d_Src imageW imageH mem = Inl AssertionFailed)"
  by (simp add: convolutionRowsGPU_def convolutionColumnsGPU_def smod_eq_0_iff
        ROWS_RESULT_STEPS_def ROWS_BLOCKDIM_X_def ROWS_BLOCKDIM_Y_def
        COLUMNS_RESULT_STEPS_def COLUMNS_BLOCKDIM_X_def COLUMNS_BLOCKDIM_Y_def)

theorem C4_violations_fail_witness:
  "\<not> (ROWS_RESULT_STEPS * ROWS_BLOCKDIM_X) dvd (100::int)
   \<and> convolutionRowsGPU 1 (\<lambda>_. 1) 512 0 100 4 (\<lambda>_. 0) = Inl AssertionFailed
   \<and> \<not> (COLUMNS_RESULT_STEPS * COLUMNS_BLOCKDIM_Y) dvd (4::int)
   \<and> convolutionColumnsGPU 1 (\<lambda>_. 1) 512 0 100 4 (\<lambda>_. 0) = Inl AssertionFailed"
  using C4_violations_fail[of 100 4 1 "\<lambda>_. 1" 512 0 "\<lambda>_. 0"]
  by (simp add: ROWS_RESULT_STEPS_def ROWS_BLOCKDIM_X_def ROWS_BLOCKDIM_Y_def
        COLUMNS_RESULT_STEPS_def COLUMNS_BLOCKDIM_X_def COLUMNS_BLOCKDIM_Y_def)

end
